theory Spec2Isabelle
  imports Main "HOL-Library.Sublist" "HOL-Library.Word"
begin

section \<open>JavaScript strings\<close>

text \<open>
  A JavaScript string is a sequence of 16-bit code units. \<open>cu\<close> is the code unit of a
  character of the script's source text (all of them ASCII) and \<open>js\<close> the string of a
  string literal. A code unit from \<open>0xD800\<close> to \<open>0xDBFF\<close> is a leading surrogate, one from
  \<open>0xDC00\<close> to \<open>0xDFFF\<close> a trailing surrogate; a leading one followed by a trailing one is
  a pair, any other surrogate is lone.
\<close>

type_synonym code_unit = "16 word"

type_synonym jstring = "code_unit list"

definition cu :: "char \<Rightarrow> code_unit" where
  "cu c = of_nat (of_char c)"

definition js :: "string \<Rightarrow> jstring" where
  "js s = map cu s"

definition is_high :: "code_unit \<Rightarrow> bool" where
  "is_high c \<longleftrightarrow> 0xD800 \<le> unat c \<and> unat c \<le> 0xDBFF"

definition is_low :: "code_unit \<Rightarrow> bool" where
  "is_low c \<longleftrightarrow> 0xDC00 \<le> unat c \<and> unat c \<le> 0xDFFF"

text \<open>
  \<open>fs.writeFileSync(path, text, 'utf-8')\<close> encodes the string as UTF-8 and
  \<open>fs.readFileSync(path, 'utf-8')\<close> decodes the bytes again. A surrogate pair and every
  other code unit come back as they were; a lone surrogate has no UTF-8 encoding and comes
  back as the replacement character \<open>U+FFFD\<close>. \<open>utf8_text\<close> is the string that reading
  yields after the given string was written.
\<close>

fun utf8_text :: "jstring \<Rightarrow> jstring" where
  "utf8_text [] = []"
| "utf8_text [c] = (if is_high c \<or> is_low c then [0xFFFD] else [c])"
| "utf8_text (c # d # cs) =
     (if is_high c \<and> is_low d then c # d # utf8_text cs
      else if is_high c \<or> is_low c then 0xFFFD # utf8_text (d # cs)
      else c # utf8_text (d # cs))"

section \<open>The link graph index\<close>

text \<open>
  A page record is the object literal that \<open>crawl\<close> stores under a URL:
  \<^verbatim>\<open>{ title: ..., links: [...], rank: 0 }\<close>.
  The rank is a JavaScript number that only ever holds integers (it starts at 0 and grows
  in steps of 10), modelled as \<open>int\<close>; a double holds these exactly up to \<open>2^53\<close>, far
  beyond ten times the number of pages a process can index, and prints them in plain
  decimal digits.
\<close>

record page =
  title :: jstring
  links :: "jstring list"
  rank :: int

text \<open>
  \<open>indexedUrls\<close> is a plain object used as a dictionary. Its own keys are unique and are
  enumerated in insertion order, so it is an association list; the operations below are
  the property read, the property write, \<open>Object.keys\<close> and \<open>Object.values\<close>. (An engine
  enumerates keys that are decimal array indices first; URLs are not of that form.)
\<close>

type_synonym 'v obj = "(jstring \<times> 'v) list"

type_synonym index = "page obj"

definition get_prop :: "'v obj \<Rightarrow> jstring \<Rightarrow> 'v option" where
  "get_prop ob k = map_of ob k"

fun set_prop :: "'v obj \<Rightarrow> jstring \<Rightarrow> 'v \<Rightarrow> 'v obj" where
  "set_prop [] k v = [(k, v)]"
| "set_prop ((k', v') # kvs) k v =
     (if k' = k then (k, v) # kvs else (k', v') # set_prop kvs k v)"

definition Object_keys :: "'v obj \<Rightarrow> jstring list" where
  "Object_keys ob = map fst ob"

definition Object_values :: "'v obj \<Rightarrow> 'v list" where
  "Object_values ob = map snd ob"

text \<open>
  \<open>indexedUrls[url].links = links\<close> and \<open>indexedUrls[url].rank = rank\<close> mutate the record
  stored under \<open>url\<close> in place. Both are only executed for a key that is present.
\<close>

definition set_links :: "index \<Rightarrow> jstring \<Rightarrow> jstring list \<Rightarrow> index" where
  "set_links idx url ls = map (\<lambda>(k, p). if k = url then (k, p\<lparr>links := ls\<rparr>) else (k, p)) idx"

definition set_rank :: "index \<Rightarrow> jstring \<Rightarrow> int \<Rightarrow> index" where
  "set_rank idx url r = map (\<lambda>(k, p). if k = url then (k, p\<lparr>rank := r\<rparr>) else (k, p)) idx"

section \<open>JSON values and \<open>JSON.stringify\<close>\<close>

text \<open>
  The values \<open>JSON.stringify\<close> writes and \<open>JSON.parse\<close> builds. A number written as an
  integer literal is \<open>JNum\<close>; \<open>JFrac\<close> stands for a number written with a fraction or an
  exponent and keeps its literal. The script only ever stringifies page records, which
  hold no such number.
\<close>

datatype json =
    JNull
  | JBool bool
  | JNum int
  | JFrac jstring
  | JStr jstring
  | JArr "json list"
  | JObj "(jstring \<times> json) list"

definition digit_char :: "nat \<Rightarrow> code_unit" where
  "digit_char d = of_nat (48 + d)"

fun nat_digits :: "nat \<Rightarrow> jstring" where
  "nat_digits n = (if n < 10 then [digit_char n] else nat_digits (n div 10) @ [digit_char (n mod 10)])"

declare nat_digits.simps [simp del]

definition Number_toString :: "int \<Rightarrow> jstring" where
  "Number_toString i = (if i < 0 then cu CHR ''-'' # nat_digits (nat (- i)) else nat_digits (nat i))"

definition hex_char :: "nat \<Rightarrow> code_unit" where
  "hex_char d = (if d < 10 then of_nat (48 + d) else of_nat (87 + d))"

definition backslash :: code_unit where
  "backslash = cu CHR 0x5C"

definition dquote :: code_unit where
  "dquote = cu CHR 0x22"

text \<open>
  \<open>QuoteJSONString\<close>: the two-character escapes, \<open>UnicodeEscape\<close> (four lower-case
  hexadecimal digits) for the other control characters and for lone surrogates, and
  every other code unit, surrogate pairs included, as it is.
\<close>

definition UnicodeEscape :: "code_unit \<Rightarrow> jstring" where
  "UnicodeEscape c =
     (let n = unat c in
      [backslash, cu CHR ''u'', hex_char (n div 4096), hex_char (n div 256 mod 16),
       hex_char (n div 16 mod 16), hex_char (n mod 16)])"

definition quote_char :: "code_unit \<Rightarrow> jstring" where
  "quote_char c =
     (let n = unat c in
      if n = 0x08 then [backslash, cu CHR ''b'']
      else if n = 0x09 then [backslash, cu CHR ''t'']
      else if n = 0x0A then [backslash, cu CHR ''n'']
      else if n = 0x0C then [backslash, cu CHR ''f'']
      else if n = 0x0D then [backslash, cu CHR ''r'']
      else if n = 0x22 then [backslash, dquote]
      else if n = 0x5C then [backslash, backslash]
      else if n < 0x20 then UnicodeEscape c
      else [c])"

fun quote_units :: "jstring \<Rightarrow> jstring" where
  "quote_units [] = []"
| "quote_units [c] = (if is_high c \<or> is_low c then UnicodeEscape c else quote_char c)"
| "quote_units (c # d # cs) =
     (if is_high c \<and> is_low d then c # d # quote_units cs
      else if is_high c \<or> is_low c then UnicodeEscape c @ quote_units (d # cs)
      else quote_char c @ quote_units (d # cs))"

definition QuoteJSONString :: "jstring \<Rightarrow> jstring" where
  "QuoteJSONString s = dquote # quote_units s @ [dquote]"

fun join :: "jstring \<Rightarrow> jstring list \<Rightarrow> jstring" where
  "join sep [] = []"
| "join sep [x] = x"
| "join sep (x # y # ys) = x @ sep @ join sep (y # ys)"

definition newline :: code_unit where
  "newline = cu CHR 0x0A"

text \<open>
  \<open>JSON.stringify(value, null, 2)\<close>: the gap is two spaces; an empty array or object is
  written without a line break, a non-empty one with one element per line.
\<close>

definition gap :: jstring where
  "gap = js ''  ''"

fun SerializeJSONProperty :: "jstring \<Rightarrow> json \<Rightarrow> jstring" where
  "SerializeJSONProperty ind JNull = js ''null''"
| "SerializeJSONProperty ind (JBool b) = (if b then js ''true'' else js ''false'')"
| "SerializeJSONProperty ind (JNum i) = Number_toString i"
| "SerializeJSONProperty ind (JFrac l) = l"
| "SerializeJSONProperty ind (JStr s) = QuoteJSONString s"
| "SerializeJSONProperty ind (JArr xs) =
     (if xs = [] then js ''[]''
      else js ''['' @ [newline] @ (ind @ gap)
           @ join (js '','' @ [newline] @ (ind @ gap)) (map (SerializeJSONProperty (ind @ gap)) xs)
           @ [newline] @ ind @ js '']'')"
| "SerializeJSONProperty ind (JObj kvs) =
     (if kvs = [] then js ''{}''
      else js ''{'' @ [newline] @ (ind @ gap)
           @ join (js '','' @ [newline] @ (ind @ gap))
               (map (\<lambda>kv. QuoteJSONString (fst kv) @ js '': '' @ SerializeJSONProperty (ind @ gap) (snd kv)) kvs)
           @ [newline] @ ind @ js ''}'')"

definition JSON_stringify :: "json \<Rightarrow> jstring" where
  "JSON_stringify v = SerializeJSONProperty [] v"

text \<open>The index as the JavaScript value it is: an object of objects.\<close>

definition page_json :: "page \<Rightarrow> json" where
  "page_json p =
     JObj [(js ''title'', JStr (title p)), (js ''links'', JArr (map JStr (links p))), (js ''rank'', JNum (rank p))]"

definition index_json :: "index \<Rightarrow> json" where
  "index_json idx = JObj (map (\<lambda>(u, p). (u, page_json p)) idx)"

section \<open>\<open>JSON.parse\<close>\<close>

definition is_ws :: "code_unit \<Rightarrow> bool" where
  "is_ws c \<longleftrightarrow> c = cu CHR '' '' \<or> c = cu CHR 0x09 \<or> c = cu CHR 0x0A \<or> c = cu CHR 0x0D"

definition skip_ws :: "jstring \<Rightarrow> jstring" where
  "skip_ws s = dropWhile is_ws s"

definition is_digit :: "code_unit \<Rightarrow> bool" where
  "is_digit c \<longleftrightarrow> 48 \<le> unat c \<and> unat c \<le> 57"

definition digit_val :: "code_unit \<Rightarrow> nat" where
  "digit_val c = unat c - 48"

definition digits_val :: "jstring \<Rightarrow> nat" where
  "digits_val ds = foldl (\<lambda>a c. 10 * a + digit_val c) 0 ds"

definition hex_val :: "code_unit \<Rightarrow> nat option" where
  "hex_val c =
     (let n = unat c in
      if 48 \<le> n \<and> n \<le> 57 then Some (n - 48)
      else if 97 \<le> n \<and> n \<le> 102 then Some (n - 87)
      else if 65 \<le> n \<and> n \<le> 70 then Some (n - 55)
      else None)"

text \<open>
  The characters of a string literal after its opening quote, up to the closing quote:
  an escape, or any code unit from \<open>0x20\<close> on other than the quote and the backslash.
\<close>

fun parse_chars :: "jstring \<Rightarrow> (jstring \<times> jstring) option" where
  "parse_chars [] = None"
| "parse_chars (c # cs) =
     (if c = dquote then Some ([], cs)
      else if c = backslash then
        (case cs of
           [] \<Rightarrow> None
         | e # cs1 \<Rightarrow>
             if e = cu CHR ''u'' then
               (case cs1 of
                  h1 # h2 # h3 # h4 # cs2 \<Rightarrow>
                    (case (hex_val h1, hex_val h2, hex_val h3, hex_val h4) of
                       (Some a, Some b, Some c', Some d) \<Rightarrow>
                         map_option (\<lambda>(str, r). (of_nat (4096 * a + 256 * b + 16 * c' + d) # str, r))
                           (parse_chars cs2)
                     | _ \<Rightarrow> None)
                | _ \<Rightarrow> None)
             else
               (case (if e = dquote then Some dquote
                      else if e = backslash then Some backslash
                      else if e = cu CHR ''/'' then Some (cu CHR ''/'')
                      else if e = cu CHR ''b'' then Some (cu CHR 0x08)
                      else if e = cu CHR ''f'' then Some (cu CHR 0x0C)
                      else if e = cu CHR ''n'' then Some (cu CHR 0x0A)
                      else if e = cu CHR ''r'' then Some (cu CHR 0x0D)
                      else if e = cu CHR ''t'' then Some (cu CHR 0x09)
                      else None) of
                  None \<Rightarrow> None
                | Some x \<Rightarrow> map_option (\<lambda>(str, r). (x # str, r)) (parse_chars cs1)))
      else if unat c < 0x20 then None
      else map_option (\<lambda>(str, r). (c # str, r)) (parse_chars cs))"

text \<open>
  A number literal: an optional minus, an integer part without a leading zero, an
  optional fraction and an optional exponent.
\<close>

definition parse_fraction :: "jstring \<Rightarrow> (jstring \<times> jstring) option" where
  "parse_fraction s =
     (case s of
        c # r \<Rightarrow>
          if c = cu CHR ''.''
          then (if takeWhile is_digit r = [] then None
                else Some (c # takeWhile is_digit r, dropWhile is_digit r))
          else Some ([], s)
      | [] \<Rightarrow> Some ([], s))"

definition parse_exponent :: "jstring \<Rightarrow> (jstring \<times> jstring) option" where
  "parse_exponent s =
     (case s of
        c # r \<Rightarrow>
          if c = cu CHR ''e'' \<or> c = cu CHR ''E''
          then (let sg = (case r of x # r1 \<Rightarrow> if x = cu CHR ''+'' \<or> x = cu CHR ''-'' then [x] else [] | [] \<Rightarrow> []);
                    r2 = drop (length sg) r
                in if takeWhile is_digit r2 = [] then None
                   else Some (c # sg @ takeWhile is_digit r2, dropWhile is_digit r2))
          else Some ([], s)
      | [] \<Rightarrow> Some ([], s))"

definition parse_number :: "jstring \<Rightarrow> (json \<times> jstring) option" where
  "parse_number s =
     (let sg = (case s of c # r \<Rightarrow> if c = cu CHR ''-'' then [c] else [] | [] \<Rightarrow> []);
          r0 = drop (length sg) s;
          ds = takeWhile is_digit r0;
          r1 = dropWhile is_digit r0
      in if ds = [] \<or> (1 < length ds \<and> hd ds = cu CHR ''0'') then None
         else (case parse_fraction r1 of
                 None \<Rightarrow> None
               | Some (fr, r2) \<Rightarrow>
                   (case parse_exponent r2 of
                      None \<Rightarrow> None
                    | Some (ex, r3) \<Rightarrow>
                        if fr = [] \<and> ex = []
                        then Some (JNum (if sg = [] then int (digits_val ds) else - int (digits_val ds)), r3)
                        else Some (JFrac (sg @ ds @ fr @ ex), r3))))"

text \<open>An object is built member by member; a repeated key overwrites the earlier value.\<close>

definition make_obj :: "(jstring \<times> json) list \<Rightarrow> (jstring \<times> json) list" where
  "make_obj ms = fold (\<lambda>kv ob. set_prop ob (fst kv) (snd kv)) ms []"

text \<open>
  The recursive descent. The first argument bounds the number of nested calls; every call
  consumes at least one character, so \<open>JSON_parse\<close> starts with the length of the text.
\<close>

fun parse_value :: "nat \<Rightarrow> jstring \<Rightarrow> (json \<times> jstring) option"
  and parse_elements :: "nat \<Rightarrow> jstring \<Rightarrow> (json list \<times> jstring) option"
  and parse_members :: "nat \<Rightarrow> jstring \<Rightarrow> ((jstring \<times> json) list \<times> jstring) option"
where
  "parse_value 0 s = None"
| "parse_value (Suc n) s =
     (case skip_ws s of
        [] \<Rightarrow> None
      | c # cs \<Rightarrow>
          if c = cu CHR ''{'' then
            (case skip_ws cs of
               [] \<Rightarrow> None
             | d # r \<Rightarrow>
                 if d = cu CHR ''}'' then Some (JObj [], r)
                 else map_option (\<lambda>(ms, r'). (JObj (make_obj ms), r')) (parse_members n cs))
          else if c = cu CHR ''['' then
            (case skip_ws cs of
               [] \<Rightarrow> None
             | d # r \<Rightarrow>
                 if d = cu CHR '']'' then Some (JArr [], r)
                 else map_option (\<lambda>(vs, r'). (JArr vs, r')) (parse_elements n cs))
          else if c = dquote then map_option (\<lambda>(str, r). (JStr str, r)) (parse_chars cs)
          else if c = cu CHR ''-'' \<or> is_digit c then parse_number (c # cs)
          else if prefix (js ''true'') (c # cs) then Some (JBool True, drop 4 (c # cs))
          else if prefix (js ''false'') (c # cs) then Some (JBool False, drop 5 (c # cs))
          else if prefix (js ''null'') (c # cs) then Some (JNull, drop 4 (c # cs))
          else None)"
| "parse_elements 0 s = None"
| "parse_elements (Suc n) s =
     (case parse_value n s of
        None \<Rightarrow> None
      | Some (v, r) \<Rightarrow>
          (case skip_ws r of
             [] \<Rightarrow> None
           | d # r1 \<Rightarrow>
               if d = cu CHR '','' then map_option (\<lambda>(vs, r2). (v # vs, r2)) (parse_elements n r1)
               else if d = cu CHR '']'' then Some ([v], r1)
               else None))"
| "parse_members 0 s = None"
| "parse_members (Suc n) s =
     (case skip_ws s of
        [] \<Rightarrow> None
      | q # cs \<Rightarrow>
          if q = dquote then
            (case parse_chars cs of
               None \<Rightarrow> None
             | Some (k, r) \<Rightarrow>
                 (case skip_ws r of
                    [] \<Rightarrow> None
                  | col # r1 \<Rightarrow>
                      if col = cu CHR '':'' then
                        (case parse_value n r1 of
                           None \<Rightarrow> None
                         | Some (v, r2) \<Rightarrow>
                             (case skip_ws r2 of
                                [] \<Rightarrow> None
                              | d # r3 \<Rightarrow>
                                  if d = cu CHR '','' then
                                    map_option (\<lambda>(ms, r4). ((k, v) # ms, r4)) (parse_members n r3)
                                  else if d = cu CHR ''}'' then Some ([(k, v)], r3)
                                  else None))
                      else None))
          else None)"

definition JSON_parse :: "jstring \<Rightarrow> json option" where
  "JSON_parse text =
     (case parse_value (Suc (length text)) text of
        None \<Rightarrow> None
      | Some (v, r) \<Rightarrow> if skip_ws r = [] then Some v else None)"

text \<open>
  \<open>Object.keys\<close> of an arbitrary parsed value: it throws on \<open>null\<close>, yields the indices of
  a string or an array, and nothing for a number or a boolean.
\<close>

definition Object_keys_json :: "json \<Rightarrow> jstring list option" where
  "Object_keys_json v =
     (case v of
        JNull \<Rightarrow> None
      | JBool b \<Rightarrow> Some []
      | JNum i \<Rightarrow> Some []
      | JFrac l \<Rightarrow> Some []
      | JStr s \<Rightarrow> Some (map nat_digits [0..<length s])
      | JArr xs \<Rightarrow> Some (map nat_digits [0..<length xs])
      | JObj kvs \<Rightarrow> Some (map fst kvs))"

section \<open>Process state\<close>

datatype ready_state = CONNECTING | OPEN | CLOSING | CLOSED

text \<open>
  A message is the object \<^verbatim>\<open>{ url, data: indexedUrls[url] }\<close> at the moment it is
  stringified by \<open>send\<close>; \<open>data\<close> is \<open>None\<close> when the read yields \<open>undefined\<close>.
\<close>

record message =
  msg_url :: jstring
  msg_data :: "page option"

record client =
  readyState :: ready_state
  sent :: "message list"

datatype log_entry =
    LogCrawling jstring
  | LogIndexed jstring nat
  | LogSaved
  | LogSaveError
  | LogCrawlError jstring jstring
  | LogRanks
  | LogLoaded
  | LogLoadError
  | LogNotFound
  | LogConnection
  | LogClosed

text \<open>
  The globals of the script, the file \<open>data.json\<close>, the console, the number of interval
  timers that \<open>broadcast\<close> has created, and the \<open>crawl\<close> calls suspended at
  \<open>await axios.get(url)\<close>.
\<close>

record 'i state =
  visited :: "jstring set"
  indexedUrls :: 'i
  clients :: "client list"
  broadcastQueue :: "jstring list"
  isBroadcasting :: bool
  intervals :: nat
  pending :: "(jstring \<times> int) list"
  dataJson :: "jstring option"
  console :: "log_entry list"

text \<open>The globals of a process that found no \<open>data.json\<close>, before anything has run.\<close>

definition fresh :: "index state" where
  "fresh =
     \<lparr>visited = {}, indexedUrls = [], clients = [], broadcastQueue = [],
      isBroadcasting = False, intervals = 0, pending = [], dataJson = None, console = []\<rparr>"

section \<open>Delivery queue\<close>

definition broadcast :: "'i state \<Rightarrow> jstring \<Rightarrow> 'i state" where
  "broadcast s url =
     (let s1 = s\<lparr>broadcastQueue := broadcastQueue s @ [url]\<rparr> in
      if \<not> isBroadcasting s1 then s1\<lparr>isBroadcasting := True, intervals := Suc (intervals s1)\<rparr>
      else s1)"

definition send :: "message \<Rightarrow> client \<Rightarrow> client" where
  "send m c = c\<lparr>sent := sent c @ [m]\<rparr>"

text \<open>One firing of the interval callback installed by \<open>broadcast\<close>.\<close>

definition drain_tick :: "index state \<Rightarrow> index state" where
  "drain_tick s =
     (case broadcastQueue s of
        urlToSend # rest \<Rightarrow>
          s\<lparr>broadcastQueue := rest,
            clients := map (\<lambda>c. if readyState c = OPEN
                                 then send \<lparr>msg_url = urlToSend, msg_data = get_prop (indexedUrls s) urlToSend\<rparr> c
                                 else c) (clients s)\<rparr>
      | [] \<Rightarrow> s\<lparr>isBroadcasting := False\<rparr>)"

section \<open>Crawler\<close>

text \<open>
  What the fetch and the HTML parser yield for a URL: an error message when
  \<open>axios.get\<close> or \<open>cheerio.load\<close> throws, otherwise the text of the title element and
  the \<open>href\<close> attribute of every anchor in document order (\<open>None\<close> when the attribute is
  missing).
\<close>

record document =
  doc_title :: jstring
  anchors :: "jstring option list"

type_synonym web = "jstring \<Rightarrow> jstring + document"

text \<open>
  \<open>crawl\<close> is an async function. Its body runs without interruption up to
  \<open>await axios.get(url)\<close>; that part is \<open>crawl\<close> below, which leaves the call in
  \<open>pending\<close>. The rest of the body runs when the response arrives: \<open>crawl_resume\<close>. The
  recursive calls made by \<open>links.map\<close> each run up to their own \<open>await\<close> before
  \<open>Promise.all\<close> is awaited. The depth is a JavaScript number compared with \<open>===\<close>.
\<close>

definition crawl :: "'i state \<Rightarrow> jstring \<Rightarrow> int \<Rightarrow> 'i state" where
  "crawl s url depth =
     (if depth = 0 then s
      else if url \<in> visited s then s
      else s\<lparr>visited := insert url (visited s),
             console := console s @ [LogCrawling url],
             pending := pending s @ [(url, depth)]\<rparr>)"

definition extract_links :: "jstring option list \<Rightarrow> jstring list" where
  "extract_links as =
     fold (\<lambda>link ls. case link of
                        Some href \<Rightarrow> if href \<noteq> [] \<and> prefix (js ''http'') href then ls @ [href] else ls
                      | None \<Rightarrow> ls) as []"

definition save :: "bool \<Rightarrow> index state \<Rightarrow> index state" where
  "save write_ok s =
     (if write_ok
      then s\<lparr>dataJson := Some (utf8_text (JSON_stringify (index_json (indexedUrls s)))),
             console := console s @ [LogSaved]\<rparr>
      else s\<lparr>console := console s @ [LogSaveError]\<rparr>)"

definition crawl_resume :: "web \<Rightarrow> bool \<Rightarrow> index state \<Rightarrow> jstring \<Rightarrow> int \<Rightarrow> index state" where
  "crawl_resume w write_ok s url depth =
     (case w url of
        Inl msg \<Rightarrow> s\<lparr>console := console s @ [LogCrawlError url msg]\<rparr>
      | Inr doc \<Rightarrow>
          (let idx1 = set_prop (indexedUrls s) url
                        \<lparr>title = (if doc_title doc = [] then js ''No title'' else doc_title doc),
                         links = [], rank = 0\<rparr>;
               ls = extract_links (anchors doc);
               idx2 = set_links idx1 url ls;
               s1 = s\<lparr>indexedUrls := idx2, console := console s @ [LogIndexed url (length ls)]\<rparr>;
               s2 = save write_ok s1;
               s3 = broadcast s2 url
           in fold (\<lambda>link t. crawl t link (depth - 1)) ls s3))"

text \<open>The response for the \<open>i\<close>-th suspended call arrives.\<close>

definition settle :: "web \<Rightarrow> bool \<Rightarrow> nat \<Rightarrow> index state \<Rightarrow> index state" where
  "settle w write_ok i s =
     (if i < length (pending s)
      then (case pending s ! i of
              (url, depth) \<Rightarrow>
                crawl_resume w write_ok
                  (s\<lparr>pending := take i (pending s) @ drop (Suc i) (pending s)\<rparr>) url depth)
      else s)"

section \<open>Rank engine\<close>

definition backlink_rank :: "index \<Rightarrow> jstring \<Rightarrow> int" where
  "backlink_rank idx url =
     fold (\<lambda>p r. if url \<in> set (links p) then r + 10 else r) (Object_values idx) 0"

definition recalculate :: "index \<Rightarrow> index" where
  "recalculate idx = fold (\<lambda>url i. set_rank i url (backlink_rank i url)) (Object_keys idx) idx"

text \<open>The number of page records whose \<open>links\<close> array contains \<open>url\<close>.\<close>

definition inbound :: "index \<Rightarrow> jstring \<Rightarrow> nat" where
  "inbound idx url = length (filter (\<lambda>ls. url \<in> set ls) (map (\<lambda>kv. links (snd kv)) idx))"

definition recalculateRanks :: "index state \<Rightarrow> index state" where
  "recalculateRanks s =
     s\<lparr>indexedUrls := recalculate (indexedUrls s), console := console s @ [LogRanks]\<rparr>"

section \<open>Viewer registration\<close>

definition replay :: "index \<Rightarrow> client \<Rightarrow> client" where
  "replay idx ws =
     fold (\<lambda>url c. if readyState c = OPEN
                    then send \<lparr>msg_url = url, msg_data = get_prop idx url\<rparr> c else c)
          (Object_keys idx) ws"

definition connection :: "index state \<Rightarrow> ready_state \<Rightarrow> index state" where
  "connection s rs =
     s\<lparr>console := console s @ [LogConnection],
       clients := clients s @ [replay (indexedUrls s) \<lparr>readyState = rs, sent = []\<rparr>]\<rparr>"

text \<open>
  The transport state of a socket changes outside the script; when a socket has closed,
  the \<open>close\<close> handler removes it from \<open>clients\<close> (\<open>indexOf\<close> and \<open>splice\<close>).
\<close>

definition socket_state :: "nat \<Rightarrow> ready_state \<Rightarrow> index state \<Rightarrow> index state" where
  "socket_state i rs s =
     (if i < length (clients s)
      then s\<lparr>clients := (clients s)[i := (clients s ! i)\<lparr>readyState := rs\<rparr>]\<rparr>
      else s)"

definition on_close :: "nat \<Rightarrow> index state \<Rightarrow> index state" where
  "on_close i s =
     (if i < length (clients s)
      then s\<lparr>clients := take i (clients s) @ drop (Suc i) (clients s),
             console := console s @ [LogClosed]\<rparr>
      else s\<lparr>console := console s @ [LogClosed]\<rparr>)"

section \<open>Timers and events\<close>

text \<open>
  The two periodic callbacks: \<open>recalculateRanks\<close> every second, and the drain callback
  every 100 ms once \<open>broadcast\<close> has installed an interval.
\<close>

datatype timer = RankTimer | DrainTimer

definition fire :: "timer \<Rightarrow> index state \<Rightarrow> index state" where
  "fire t s =
     (case t of
        RankTimer \<Rightarrow> recalculateRanks s
      | DrainTimer \<Rightarrow> if 0 < intervals s then drain_tick s else s)"

text \<open>
  Everything that can run between two suspension points of the script: a call of
  \<open>crawl\<close>, the response to a pending request (with whether the write of \<open>data.json\<close>
  succeeds), a timer, a viewer connecting, a socket changing state or closing.
\<close>

datatype event =
    CrawlCall jstring int
  | Response nat bool
  | Timer timer
  | Connect ready_state
  | SocketState nat ready_state
  | SocketClose nat

definition step :: "web \<Rightarrow> event \<Rightarrow> index state \<Rightarrow> index state" where
  "step w e s =
     (case e of
        CrawlCall url depth \<Rightarrow> crawl s url depth
      | Response i write_ok \<Rightarrow> settle w write_ok i s
      | Timer t \<Rightarrow> fire t s
      | Connect rs \<Rightarrow> connection s rs
      | SocketState i rs \<Rightarrow> socket_state i rs s
      | SocketClose i \<Rightarrow> on_close i s)"

definition run :: "web \<Rightarrow> event list \<Rightarrow> index state \<Rightarrow> index state" where
  "run w evs s = fold (step w) evs s"

section \<open>Startup load\<close>

text \<open>
  The globals as the script initialises them, before \<open>data.json\<close> is looked at.
\<close>

definition initial :: "jstring option \<Rightarrow> json state" where
  "initial file =
     \<lparr>visited = {}, indexedUrls = JObj [], clients = [], broadcastQueue = [],
      isBroadcasting = False, intervals = 0, pending = [], dataJson = file, console = []\<rparr>"

text \<open>
  The load block: \<open>fs.existsSync\<close>, then inside \<open>try\<close> the read, \<open>JSON.parse\<close>, the
  assignment, the log line and the broadcast of the first 100 keys; the \<open>catch\<close> resets
  \<open>indexedUrls\<close> to the empty object.
\<close>

definition startup :: "jstring option \<Rightarrow> json state" where
  "startup file =
     (let s = initial file in
      case file of
        None \<Rightarrow> s\<lparr>console := console s @ [LogNotFound]\<rparr>
      | Some rawData \<Rightarrow>
          (case JSON_parse rawData of
             None \<Rightarrow> s\<lparr>indexedUrls := JObj [], console := console s @ [LogLoadError]\<rparr>
           | Some v \<Rightarrow>
               (let s1 = s\<lparr>indexedUrls := v, console := console s @ [LogLoaded]\<rparr> in
                case Object_keys_json v of
                  None \<Rightarrow> s1\<lparr>indexedUrls := JObj [], console := console s1 @ [LogLoadError]\<rparr>
                | Some ks \<Rightarrow> fold (\<lambda>url t. broadcast t url) (take 100 ks) s1)))"

text \<open>
  The rest of the script treats \<open>indexedUrls\<close> as a map of page records. \<open>as_index\<close> reads
  a value of that shape as an \<open>index\<close>.
\<close>

definition is_str :: "json \<Rightarrow> bool" where
  "is_str v = (case v of JStr x \<Rightarrow> True | _ \<Rightarrow> False)"

definition str_of :: "json \<Rightarrow> jstring" where
  "str_of v = (case v of JStr x \<Rightarrow> x | _ \<Rightarrow> [])"

definition as_page :: "json \<Rightarrow> page option" where
  "as_page v =
     (case v of
        JObj kvs \<Rightarrow>
          (case (get_prop kvs (js ''title''), get_prop kvs (js ''links''), get_prop kvs (js ''rank'')) of
             (Some (JStr t), Some (JArr ls), Some (JNum r)) \<Rightarrow>
               if map fst kvs = [js ''title'', js ''links'', js ''rank''] \<and> list_all is_str ls
               then Some \<lparr>title = t, links = map str_of ls, rank = r\<rparr>
               else None
           | _ \<Rightarrow> None)
      | _ \<Rightarrow> None)"

definition as_index :: "json \<Rightarrow> index option" where
  "as_index v =
     (case v of
        JObj kvs \<Rightarrow>
          if list_all (\<lambda>kv. as_page (snd kv) \<noteq> None) kvs
          then Some (map (\<lambda>kv. (fst kv, the (as_page (snd kv)))) kvs)
          else None
      | _ \<Rightarrow> None)"

definition typed :: "json state \<Rightarrow> index state option" where
  "typed s =
     map_option (\<lambda>idx.
        \<lparr>visited = visited s, indexedUrls = idx, clients = clients s,
         broadcastQueue = broadcastQueue s, isBroadcasting = isBroadcasting s,
         intervals = intervals s, pending = pending s, dataJson = dataJson s,
         console = console s\<rparr>) (as_index (indexedUrls s))"

section \<open>Notions used in the statements about delivery\<close>

text \<open>
  \<open>deliver\<close> is the body of the \<open>forEach\<close> in the drain callback; \<open>view\<close> keeps of a client
  its transport state and the URLs of the messages sent to it; \<open>drains\<close> counts the
  firings of the drain timer in a sequence of timer events. \<open>two_viewers\<close> and
  \<open>self_linked\<close> are example states.
\<close>

definition deliver :: "message \<Rightarrow> client \<Rightarrow> client" where
  "deliver m c = (if readyState c = OPEN then send m c else c)"

text \<open>The URLs of the messages a client has been sent, and the clients' transport states.\<close>

definition sent_urls :: "client \<Rightarrow> jstring list" where
  "sent_urls c = map msg_url (sent c)"

definition view :: "client \<Rightarrow> ready_state \<times> jstring list" where
  "view c = (readyState c, sent_urls c)"

definition receive :: "jstring list \<Rightarrow> ready_state \<times> jstring list \<Rightarrow> ready_state \<times> jstring list" where
  "receive us v = (fst v, if fst v = OPEN then snd v @ us else snd v)"

definition drains :: "timer list \<Rightarrow> nat" where
  "drains ts = length (filter (\<lambda>t. t = DrainTimer) ts)"

definition two_viewers :: "index state" where
  "two_viewers = fresh\<lparr>clients := [\<lparr>readyState = OPEN, sent = []\<rparr>, \<lparr>readyState = CLOSING, sent = []\<rparr>]\<rparr>"

definition self_linked :: "index state" where
  "self_linked =
     fresh\<lparr>indexedUrls := [(js ''http://a'', \<lparr>title = js ''A'', links = [js ''http://a''], rank = 0\<rparr>)],
           clients := [\<lparr>readyState = OPEN, sent = []\<rparr>]\<rparr>"

text \<open>
  Every interval that \<open>broadcast\<close> has installed fires once in each period of 100 ms:
  \<open>drain_period\<close> is what the drain callbacks of one such period do to the state.
  \<open>wide_web\<close> is a site whose seed page links to three pages without links, and \<open>burst\<close>
  a sequence of events of a process started without \<open>data.json\<close>: a viewer connects,
  the seed is crawled to depth 2 and its response arrives, the drain callback fires twice
  (the second time it finds the queue empty and resets \<open>isBroadcasting\<close>), then the
  responses of the three linked pages arrive.
\<close>

definition drain_period :: "index state \<Rightarrow> index state" where
  "drain_period s = (drain_tick ^^ intervals s) s"

definition wide_web :: web where
  "wide_web url =
     (if url = js ''http://seed''
      then Inr \<lparr>doc_title = js ''Seed'',
                anchors = [Some (js ''http://a''), Some (js ''http://b''), Some (js ''http://c'')]\<rparr>
      else Inr \<lparr>doc_title = js ''Leaf'', anchors = []\<rparr>)"

definition burst :: "event list" where
  "burst =
     [Connect OPEN, CrawlCall (js ''http://seed'') 2, Response 0 True,
      Timer DrainTimer, Timer DrainTimer,
      Response 0 True, Response 0 True, Response 0 True]"

section \<open>Notions used in the statements about the crawler\<close>

text \<open>
  \<open>new_record\<close> is the record \<open>crawl\<close> has stored for a fetched document once its links
  are assigned. \<open>example_web\<close> is a three-page web: a seed linking to a reachable and an
  unreachable URL.
\<close>

definition new_record :: "document \<Rightarrow> page" where
  "new_record doc =
     \<lparr>title = (if doc_title doc = [] then js ''No title'' else doc_title doc),
      links = extract_links (anchors doc), rank = 0\<rparr>"

definition example_web :: web where
  "example_web url =
     (if url = js ''http://seed''
      then Inr \<lparr>doc_title = js ''Seed'', anchors = [Some (js ''http://good''), Some (js ''http://bad'')]\<rparr>
      else if url = js ''http://good''
      then Inr \<lparr>doc_title = [], anchors = [Some (js ''/about''), None, Some (js ''http://seed''), Some (js ''http://seed'')]\<rparr>
      else Inl (js ''ECONNREFUSED''))"

section \<open>Notions used in the statements about \<open>data.json\<close>\<close>

text \<open>
  A code unit is \<open>plain\<close> when it is no surrogate, and a string is \<open>intact\<close> when it comes
  back from the file as it was written.
  \<open>delimited\<close> says that what follows a number literal cannot continue it. \<open>wf_json\<close>
  holds of the values whose numbers are integers and whose objects have unique keys, as
  every JavaScript object has. \<open>fuel\<close> is the depth of calls the parser needs for a value,
  \<open>reads_back\<close> that the parser reads the text of a value back, and \<open>member_text\<close> is the
  text of one object member. \<open>unicode_titled\<close> is an example state whose one title holds
  code units above \<open>0xFF\<close>, a surrogate pair and a lone surrogate.
\<close>

definition plain :: "code_unit \<Rightarrow> bool" where
  "plain c \<longleftrightarrow> \<not> is_high c \<and> \<not> is_low c"

definition intact :: "jstring \<Rightarrow> bool" where
  "intact t \<longleftrightarrow> utf8_text t = t"

definition unicode_titled :: "index state" where
  "unicode_titled =
     fresh\<lparr>indexedUrls :=
             [(js ''http://a'',
               \<lparr>title = js ''Caf'' @ [0xE9, 0x20, 0x2014, 0x20, 0x2615, 0x20, 0x65E5, 0x672C, 0xD83D, 0xDE00, 0xD800],
                links = [js ''http://a''], rank = 10\<rparr>)]\<rparr>"

definition delimited :: "jstring \<Rightarrow> bool" where
  "delimited rest =
     (case rest of
        [] \<Rightarrow> True
      | c # r \<Rightarrow> \<not> is_digit c \<and> c \<noteq> (cu CHR ''.'') \<and> c \<noteq> (cu CHR ''e'') \<and> c \<noteq> (cu CHR ''E''))"

fun wf_json :: "json \<Rightarrow> bool" where
  "wf_json JNull = True"
| "wf_json (JBool b) = True"
| "wf_json (JNum i) = True"
| "wf_json (JFrac l) = False"
| "wf_json (JStr s) = True"
| "wf_json (JArr xs) = (\<forall>x \<in> set xs. wf_json x)"
| "wf_json (JObj kvs) = (distinct (map fst kvs) \<and> (\<forall>kv \<in> set kvs. wf_json (snd kv)))"

fun need :: "nat list \<Rightarrow> nat" where
  "need [] = 0"
| "need (f # fs) = Suc (max f (need fs))"

fun fuel :: "json \<Rightarrow> nat" where
  "fuel (JArr xs) = Suc (need (map fuel xs))"
| "fuel (JObj kvs) = Suc (need (map (\<lambda>kv. fuel (snd kv)) kvs))"
| "fuel v = 1"

definition reads_back :: "json \<Rightarrow> bool" where
  "reads_back v \<longleftrightarrow>
     (\<forall>ind n rest w.
        list_all is_ws w \<longrightarrow> list_all is_ws ind \<longrightarrow> delimited rest \<longrightarrow> fuel v \<le> n \<longrightarrow>
        parse_value n (w @ SerializeJSONProperty ind v @ rest) = Some (v, rest))"

definition member_text :: "jstring \<Rightarrow> jstring \<times> json \<Rightarrow> jstring" where
  "member_text ind kv = QuoteJSONString (fst kv) @ js '': '' @ SerializeJSONProperty ind (snd kv)"

section \<open>Notions used in the statements about link filtering\<close>

text \<open>
  \<open>kept\<close> is the test of the anchor loop: the \<open>href\<close> is present, not empty, and starts
  with \<open>http\<close>. \<open>http_links\<close> says that every link of a record starts with \<open>http\<close>;
  \<open>message_ok\<close> says it of the record a message carries and \<open>document_ok\<close> of every record
  of a document, read with \<open>JSON.parse\<close>. \<open>links_invariant\<close> collects it for the index
  (whose keys are unique) and for every message sent to a client. \<open>written before s\<close> says
  that \<open>data.json\<close> is either still what it was (\<open>before\<close>) or a document of such records.
\<close>

definition kept :: "jstring option \<Rightarrow> bool" where
  "kept a = (case a of Some href \<Rightarrow> href \<noteq> [] \<and> prefix (js ''http'') href | None \<Rightarrow> False)"

definition http_links :: "page \<Rightarrow> bool" where
  "http_links p = list_all (prefix (js ''http'')) (links p)"

definition message_ok :: "message \<Rightarrow> bool" where
  "message_ok m = (case msg_data m of None \<Rightarrow> True | Some p \<Rightarrow> http_links p)"

definition document_ok :: "jstring \<Rightarrow> bool" where
  "document_ok text =
     (case JSON_parse text of
        None \<Rightarrow> False
      | Some v \<Rightarrow>
          (case as_index v of
             None \<Rightarrow> False
           | Some idx \<Rightarrow> list_all (\<lambda>kv. http_links (snd kv)) idx))"

definition links_invariant :: "index state \<Rightarrow> bool" where
  "links_invariant s =
     (distinct (Object_keys (indexedUrls s))
      \<and> list_all (\<lambda>kv. http_links (snd kv)) (indexedUrls s)
      \<and> list_all (\<lambda>c. list_all message_ok (sent c)) (clients s))"

definition written :: "jstring option \<Rightarrow> index state \<Rightarrow> bool" where
  "written before s =
     (dataJson s = before \<or> (case dataJson s of None \<Rightarrow> False | Some text \<Rightarrow> document_ok text))"

text \<open>
  \<open>timer_installed\<close>: whenever \<open>isBroadcasting\<close> is set or the queue is not empty, at least
  one drain interval exists, so drain ticks do occur.
\<close>

definition timer_installed :: "index state \<Rightarrow> bool" where
  "timer_installed s \<longleftrightarrow> (isBroadcasting s \<longrightarrow> 0 < intervals s) \<and> (broadcastQueue s \<noteq> [] \<longrightarrow> 0 < intervals s)"

section \<open>Code units of characters\<close>

lemma unat_cu [simp]: "unat (cu c) = of_char c"
proof -
  have "(of_char c :: nat) < 256" by (rule nat_of_char_less_256)
  then have "(of_char c :: nat) < 65536" by linarith
  then show ?thesis
    by (simp add: cu_def unat_of_nat)
qed

lemma cu_eq_iff [simp]: "cu a = cu b \<longleftrightarrow> a = b"
proof
  assume "cu a = cu b"
  then have "unat (cu a) = unat (cu b)" by simp
  then show "a = b" by simp
qed simp

lemma js_Nil [simp]: "js [] = []"
  by (simp add: js_def)

lemma js_Cons [simp]: "js (c # s) = cu c # js s"
  by (simp add: js_def)

lemma js_eq_iff: "js a = js b \<longleftrightarrow> a = b"
  by (simp add: js_def inj_map_eq_map inj_on_def)

lemma js_eq_Nil: "js a = [] \<longleftrightarrow> a = []" "[] = js a \<longleftrightarrow> a = []"
  by (auto simp: js_def)

lemmas js_literal = js_eq_iff js_eq_Nil

lemma unat_eq_cu: "unat c = of_char d \<Longrightarrow> c = cu d"
  by (simp add: word_unat_eq_iff)

lemma cu_not_surrogate [simp]: "\<not> is_high (cu c)" "\<not> is_low (cu c)"
proof -
  have "(of_char c :: nat) < 256" by (rule nat_of_char_less_256)
  then have "\<not> 0xD800 \<le> (of_char c :: nat)" "\<not> 0xDC00 \<le> (of_char c :: nat)" by linarith+
  then show "\<not> is_high (cu c)" "\<not> is_low (cu c)"
    by (simp_all add: is_high_def is_low_def)
qed

section \<open>Depth bound and revisit\<close>

text \<open>
  Claim C4. \<open>crawl(url, 0)\<close> returns at its first line: the whole state is unchanged, so
  no request is pending, no page record is created, \<open>data.json\<close> is not written, nothing
  is queued and the URL is not marked visited.
\<close>

theorem crawl_depth_zero: "crawl s url 0 = s"
  by (simp add: crawl_def)

text \<open>
  Claim C5. For a URL that is already in \<open>visited\<close>, \<open>crawl\<close> returns at its second line
  whatever the depth: the whole state is unchanged.
\<close>

theorem crawl_visited: "url \<in> visited s \<Longrightarrow> crawl s url depth = s"
  by (simp add: crawl_def)

theorem crawl_visited_witness:
  "js ''http://a'' \<in> visited (fresh\<lparr>visited := {js ''http://a''}\<rparr>)
   \<and> crawl (fresh\<lparr>visited := {js ''http://a''}\<rparr>) (js ''http://a'') 3 = fresh\<lparr>visited := {js ''http://a''}\<rparr>"
  using crawl_visited [of "js ''http://a''" "fresh\<lparr>visited := {js ''http://a''}\<rparr>" 3] by simp

section \<open>Rank recomputation\<close>

lemma fold_backlinks: "fold (\<lambda>p r. if url \<in> set (links p) then r + 10 else r) ps a
    = a + 10 * int (length (filter (\<lambda>ls. url \<in> set ls) (map links ps)))"
  by (induction ps arbitrary: a) simp_all

lemma backlink_rank_inbound: "backlink_rank idx url = 10 * int (inbound idx url)"
  by (simp add: backlink_rank_def inbound_def fold_backlinks Object_values_def comp_def)

lemma links_set_rank: "map (\<lambda>kv. links (snd kv)) (set_rank idx url r) = map (\<lambda>kv. links (snd kv)) idx"
  by (induction idx) (simp_all add: set_rank_def case_prod_unfold)

lemma inbound_set_rank: "inbound (set_rank idx url r) u = inbound idx u"
  by (simp add: inbound_def links_set_rank)

lemma recalculate_fold:
  "map (\<lambda>kv. links (snd kv)) i = map (\<lambda>kv. links (snd kv)) idx \<Longrightarrow>
   fold (\<lambda>url i. set_rank i url (backlink_rank i url)) ks i
     = map (\<lambda>kv. if fst kv \<in> set ks then (fst kv, (snd kv)\<lparr>rank := 10 * int (inbound idx (fst kv))\<rparr>) else kv) i"
proof (induction ks arbitrary: i)
  case Nil
  then show ?case by simp
next
  case (Cons k ks)
  have b: "backlink_rank i k = 10 * int (inbound idx k)"
    using Cons.prems by (simp add: backlink_rank_inbound inbound_def)
  have sk: "map (\<lambda>kv. links (snd kv)) (set_rank i k (10 * int (inbound idx k))) = map (\<lambda>kv. links (snd kv)) idx"
    using Cons.prems by (simp add: links_set_rank)
  have "fold (\<lambda>url i. set_rank i url (backlink_rank i url)) (k # ks) i
      = fold (\<lambda>url i. set_rank i url (backlink_rank i url)) ks (set_rank i k (10 * int (inbound idx k)))"
    by (simp add: b)
  also have "\<dots> = map (\<lambda>kv. if fst kv \<in> set ks then (fst kv, (snd kv)\<lparr>rank := 10 * int (inbound idx (fst kv))\<rparr>) else kv)
                      (set_rank i k (10 * int (inbound idx k)))"
    by (rule Cons.IH [OF sk])
  also have "\<dots> = map (\<lambda>kv. if fst kv \<in> set (k # ks) then (fst kv, (snd kv)\<lparr>rank := 10 * int (inbound idx (fst kv))\<rparr>) else kv) i"
    by (simp add: set_rank_def case_prod_unfold)
  finally show ?case .
qed

lemma recalculate_eq:
  "recalculate idx = map (\<lambda>kv. (fst kv, (snd kv)\<lparr>rank := 10 * int (inbound idx (fst kv))\<rparr>)) idx"
proof -
  have "recalculate idx = map (\<lambda>kv. if fst kv \<in> set (Object_keys idx) then (fst kv, (snd kv)\<lparr>rank := 10 * int (inbound idx (fst kv))\<rparr>) else kv) idx"
    unfolding recalculate_def by (rule recalculate_fold) simp
  also have "\<dots> = map (\<lambda>kv. (fst kv, (snd kv)\<lparr>rank := 10 * int (inbound idx (fst kv))\<rparr>)) idx"
    by (rule map_cong) (simp_all add: Object_keys_def)
  finally show ?thesis .
qed

lemma get_prop_map_values:
  "get_prop (map (\<lambda>kv. (fst kv, f (fst kv) (snd kv))) ob) u = map_option (f u) (get_prop ob u)"
  by (induction ob) (simp_all add: get_prop_def)

lemma get_prop_recalculate:
  "get_prop (recalculate idx) u = map_option (\<lambda>p. p\<lparr>rank := 10 * int (inbound idx u)\<rparr>) (get_prop idx u)"
  unfolding recalculate_eq
  by (rule get_prop_map_values [where f = "\<lambda>k p. p\<lparr>rank := 10 * int (inbound idx k)\<rparr>"])

lemma inbound_values:
  "inbound idx u = length (filter (\<lambda>q. u \<in> set (links q)) (Object_values idx))"
  by (simp add: inbound_def Object_values_def filter_map comp_def)

text \<open>
  Claim C1. After \<open>recalculateRanks\<close> every URL that has a page record keeps its title and
  links and has rank 10 times the number of page records whose \<open>links\<close> array contains it
  (membership, so a page that lists the URL several times counts once); the keys are
  unchanged. For three distinct URLs with P1 linking to P2, P2 to P3 and P3 to P2, the
  ranks become 0, 20 and 10.
\<close>

theorem recalculateRanks_backlinks:
  "(\<forall>u p. get_prop (indexedUrls s) u = Some p \<longrightarrow>
      get_prop (indexedUrls (recalculateRanks s)) u
        = Some (p\<lparr>rank := 10 * int (length (filter (\<lambda>q. u \<in> set (links q)) (Object_values (indexedUrls s))))\<rparr>))
   \<and> Object_keys (indexedUrls (recalculateRanks s)) = Object_keys (indexedUrls s)
   \<and> (\<forall>p1 p2 p3 t1 t2 t3 r1 r2 r3.
        p1 \<noteq> p2 \<and> p1 \<noteq> p3 \<and> p2 \<noteq> p3 \<longrightarrow>
        indexedUrls s = [(p1, \<lparr>title = t1, links = [p2], rank = r1\<rparr>),
                         (p2, \<lparr>title = t2, links = [p3], rank = r2\<rparr>),
                         (p3, \<lparr>title = t3, links = [p2], rank = r3\<rparr>)] \<longrightarrow>
        indexedUrls (recalculateRanks s)
          = [(p1, \<lparr>title = t1, links = [p2], rank = 0\<rparr>),
             (p2, \<lparr>title = t2, links = [p3], rank = 20\<rparr>),
             (p3, \<lparr>title = t3, links = [p2], rank = 10\<rparr>)])"
proof (intro conjI allI impI)
  fix u p assume "get_prop (indexedUrls s) u = Some p"
  then show "get_prop (indexedUrls (recalculateRanks s)) u
        = Some (p\<lparr>rank := 10 * int (length (filter (\<lambda>q. u \<in> set (links q)) (Object_values (indexedUrls s))))\<rparr>)"
    by (simp add: recalculateRanks_def get_prop_recalculate inbound_values)
next
  show "Object_keys (indexedUrls (recalculateRanks s)) = Object_keys (indexedUrls s)"
    by (simp add: recalculateRanks_def recalculate_eq Object_keys_def comp_def)
next
  fix p1 p2 p3 :: jstring and t1 t2 t3 r1 r2 r3
  assume "p1 \<noteq> p2 \<and> p1 \<noteq> p3 \<and> p2 \<noteq> p3"
    and "indexedUrls s = [(p1, \<lparr>title = t1, links = [p2], rank = r1\<rparr>),
                         (p2, \<lparr>title = t2, links = [p3], rank = r2\<rparr>),
                         (p3, \<lparr>title = t3, links = [p2], rank = r3\<rparr>)]"
  then show "indexedUrls (recalculateRanks s)
          = [(p1, \<lparr>title = t1, links = [p2], rank = 0\<rparr>),
             (p2, \<lparr>title = t2, links = [p3], rank = 20\<rparr>),
             (p3, \<lparr>title = t3, links = [p2], rank = 10\<rparr>)]"
    by (auto simp: recalculateRanks_def recalculate_eq inbound_def)
qed


theorem recalculateRanks_backlinks_witness:
  "get_prop (indexedUrls (fresh\<lparr>indexedUrls :=
       [(js ''http://p1'', \<lparr>title = js ''P1'', links = [js ''http://p2''], rank = 0\<rparr>),
        (js ''http://p2'', \<lparr>title = js ''P2'', links = [js ''http://p3''], rank = 0\<rparr>),
        (js ''http://p3'', \<lparr>title = js ''P3'', links = [js ''http://p2''], rank = 0\<rparr>)]\<rparr>)) (js ''http://p2'')
     = Some \<lparr>title = js ''P2'', links = [js ''http://p3''], rank = 0\<rparr>
   \<and> get_prop (indexedUrls (recalculateRanks (fresh\<lparr>indexedUrls :=
       [(js ''http://p1'', \<lparr>title = js ''P1'', links = [js ''http://p2''], rank = 0\<rparr>),
        (js ''http://p2'', \<lparr>title = js ''P2'', links = [js ''http://p3''], rank = 0\<rparr>),
        (js ''http://p3'', \<lparr>title = js ''P3'', links = [js ''http://p2''], rank = 0\<rparr>)]\<rparr>))) (js ''http://p2'')
     = Some \<lparr>title = js ''P2'', links = [js ''http://p3''], rank = 20\<rparr>
   \<and> indexedUrls (recalculateRanks (fresh\<lparr>indexedUrls :=
       [(js ''http://p1'', \<lparr>title = js ''P1'', links = [js ''http://p2''], rank = 0\<rparr>),
        (js ''http://p2'', \<lparr>title = js ''P2'', links = [js ''http://p3''], rank = 0\<rparr>),
        (js ''http://p3'', \<lparr>title = js ''P3'', links = [js ''http://p2''], rank = 0\<rparr>)]\<rparr>))
     = [(js ''http://p1'', \<lparr>title = js ''P1'', links = [js ''http://p2''], rank = 0\<rparr>),
        (js ''http://p2'', \<lparr>title = js ''P2'', links = [js ''http://p3''], rank = 20\<rparr>),
        (js ''http://p3'', \<lparr>title = js ''P3'', links = [js ''http://p2''], rank = 10\<rparr>)]"
  using recalculateRanks_backlinks [of "fresh\<lparr>indexedUrls :=
       [(js ''http://p1'', \<lparr>title = js ''P1'', links = [js ''http://p2''], rank = 0\<rparr>),
        (js ''http://p2'', \<lparr>title = js ''P2'', links = [js ''http://p3''], rank = 0\<rparr>),
        (js ''http://p3'', \<lparr>title = js ''P3'', links = [js ''http://p2''], rank = 0\<rparr>)]\<rparr>"]
  by (simp add: get_prop_def Object_values_def)

section \<open>Delivery queue and viewer registration\<close>

lemma drain_tick_queue: "broadcastQueue (drain_tick s) = tl (broadcastQueue s)"
  by (simp add: drain_tick_def split: list.splits)

lemma drain_tick_index: "indexedUrls (drain_tick s) = indexedUrls s"
  by (simp add: drain_tick_def split: list.splits)

lemma drain_tick_intervals: "intervals (drain_tick s) = intervals s"
  by (simp add: drain_tick_def split: list.splits)

lemma drain_tick_clients:
  "clients (drain_tick s) =
     (case broadcastQueue s of
        [] \<Rightarrow> clients s
      | u # rest \<Rightarrow> map (deliver \<lparr>msg_url = u, msg_data = get_prop (indexedUrls s) u\<rparr>) (clients s))"
  by (simp add: drain_tick_def deliver_def split: list.splits)

lemma deliver_readyState: "readyState (deliver m c) = readyState c"
  by (simp add: deliver_def send_def)

lemma deliver_sent:
  "sent (deliver m c) = (if readyState c = OPEN then sent c @ [m] else sent c)"
  by (simp add: deliver_def send_def)

lemma receive_receive: "receive b (receive a v) = receive (a @ b) v"
  by (simp add: receive_def)

lemma receive_Nil: "receive [] v = v"
  by (cases v) (simp add: receive_def)

lemma view_deliver: "view (deliver m c) = receive [msg_url m] (view c)"
  by (simp add: view_def receive_def deliver_def send_def sent_urls_def)

lemma fire_intervals: "intervals (fire t s) = intervals s"
  by (cases t) (simp_all add: fire_def recalculateRanks_def drain_tick_intervals)

lemma fire_queue:
  "0 < intervals s \<Longrightarrow>
   broadcastQueue (fire t s) = (if t = DrainTimer then tl (broadcastQueue s) else broadcastQueue s)"
  by (cases t) (simp_all add: fire_def recalculateRanks_def drain_tick_queue)

lemma fire_clients:
  "0 < intervals s \<Longrightarrow>
   map view (clients (fire t s)) =
   map (receive (if t = DrainTimer then take 1 (broadcastQueue s) else [])) (map view (clients s))"
proof (cases t)
  case RankTimer
  then show ?thesis by (simp add: fire_def recalculateRanks_def receive_Nil comp_def)
next
  case DrainTimer
  assume "0 < intervals s"
  then show ?thesis
    by (cases "broadcastQueue s")
       (simp_all add: DrainTimer fire_def drain_tick_clients receive_Nil comp_def view_deliver)
qed

lemma take_1_tl: "take (Suc 0) q @ take k (tl q) = take (Suc k) q"
  by (cases q) simp_all

lemma fires_drain:
  "0 < intervals s \<Longrightarrow>
   broadcastQueue (fold fire ts s) = drop (drains ts) (broadcastQueue s)
   \<and> map view (clients (fold fire ts s)) =
     map (receive (take (drains ts) (broadcastQueue s))) (map view (clients s))"
proof (induction ts arbitrary: s)
  case Nil
  then show ?case by (simp add: drains_def receive_Nil comp_def)
next
  case (Cons t ts)
  let ?s1 = "fire t s"
  have iv: "0 < intervals ?s1" using Cons.prems by (simp add: fire_intervals)
  note ih = Cons.IH [OF iv]
  have q: "broadcastQueue ?s1 = (if t = DrainTimer then tl (broadcastQueue s) else broadcastQueue s)"
    using Cons.prems by (rule fire_queue)
  have c: "map view (clients ?s1) =
      map (receive (if t = DrainTimer then take 1 (broadcastQueue s) else [])) (map view (clients s))"
    using Cons.prems by (rule fire_clients)
  have q': "broadcastQueue (fold fire (t # ts) s) = drop (drains (t # ts)) (broadcastQueue s)"
    using ih q by (simp add: drains_def drop_Suc)
  have "map view (clients (fold fire (t # ts) s))
      = map (receive (take (drains ts) (broadcastQueue ?s1))) (map view (clients ?s1))"
    using ih by simp
  also have "\<dots> = map (receive (take (drains (t # ts)) (broadcastQueue s))) (map view (clients s))"
    unfolding c q
    by (cases "t = DrainTimer") (simp_all add: receive_receive comp_def drains_def take_1_tl receive_Nil)
  finally show ?case using q' by simp
qed

lemma fires_idle:
  "broadcastQueue s = [] \<Longrightarrow>
   broadcastQueue (fold fire ts s) = [] \<and> map view (clients (fold fire ts s)) = map view (clients s)"
proof (induction ts arbitrary: s)
  case Nil
  then show ?case by simp
next
  case (Cons t ts)
  have q: "broadcastQueue (fire t s) = []"
    using Cons.prems by (cases t) (simp_all add: fire_def recalculateRanks_def drain_tick_queue)
  have c: "clients (fire t s) = clients s"
    using Cons.prems by (cases t) (simp_all add: fire_def recalculateRanks_def drain_tick_clients)
  show ?case using Cons.IH [OF q] c by simp
qed

lemma broadcast_queue: "broadcastQueue (broadcast s url) = broadcastQueue s @ [url]"
  by (simp add: broadcast_def Let_def)

lemma broadcast_clients: "clients (broadcast s url) = clients s"
  by (simp add: broadcast_def Let_def)

lemma broadcast_index: "indexedUrls (broadcast s url) = indexedUrls s"
  by (simp add: broadcast_def Let_def)

lemma broadcast_intervals: "0 < intervals (broadcast s url) \<or> isBroadcasting s"
  by (simp add: broadcast_def Let_def)

lemma broadcast_timer:
  "(isBroadcasting s \<longrightarrow> 0 < intervals s) \<Longrightarrow>
   isBroadcasting (broadcast s url) \<and> 0 < intervals (broadcast s url)"
  by (simp add: broadcast_def Let_def)

lemma broadcasts_queue: "broadcastQueue (fold (\<lambda>u t. broadcast t u) us s) = broadcastQueue s @ us"
  by (induction us arbitrary: s) (simp_all add: broadcast_queue)

lemma broadcasts_clients: "clients (fold (\<lambda>u t. broadcast t u) us s) = clients s"
  by (induction us arbitrary: s) (simp_all add: broadcast_clients)

lemma broadcasts_timer:
  "(isBroadcasting s \<longrightarrow> 0 < intervals s) \<Longrightarrow> us \<noteq> [] \<Longrightarrow>
   0 < intervals (fold (\<lambda>u t. broadcast t u) us s)"
proof (induction us arbitrary: s)
  case Nil
  then show ?case by simp
next
  case (Cons u us)
  have b: "isBroadcasting (broadcast s u) \<and> 0 < intervals (broadcast s u)"
    using Cons.prems(1) by (rule broadcast_timer)
  show ?case
  proof (cases "us = []")
    case True
    then show ?thesis using b by simp
  next
    case False
    have "isBroadcasting (broadcast s u) \<longrightarrow> 0 < intervals (broadcast s u)" using b by simp
    from Cons.IH [OF this False] show ?thesis by simp
  qed
qed

text \<open>
  Order and number of the deliveries. Starting with an empty queue, after the URLs \<open>us\<close>
  are enqueued and the timers then fire with at least as many firings of the drain callback
  as there are URLs (rank ticks may come in between), the queue is empty, every client keeps
  its transport state, every open client has been sent exactly one message per enqueued
  URL, in enqueue order, and a client that is not open has been sent nothing. Every single
  firing of the drain callback removes at most the head of the queue and sends each client
  at most one message. How many firings there are in a period is another matter: see the
  section on the rate at which the queue is drained.
\<close>

theorem drain_fifo:
  assumes timer: "isBroadcasting s \<longrightarrow> 0 < intervals s"
    and empty: "broadcastQueue s = []"
    and ticks: "length us \<le> length (filter (\<lambda>t. t = DrainTimer) ts)"
  shows "broadcastQueue (fold fire ts (fold (\<lambda>u t. broadcast t u) us s)) = []
    \<and> map (\<lambda>c. (readyState c, map msg_url (sent c))) (clients (fold fire ts (fold (\<lambda>u t. broadcast t u) us s)))
      = map (\<lambda>c. (readyState c,
                   if readyState c = OPEN then map msg_url (sent c) @ us else map msg_url (sent c)))
          (clients s)
    \<and> (\<forall>t. broadcastQueue (drain_tick t) = tl (broadcastQueue t)
            \<and> length (clients (drain_tick t)) = length (clients t)
            \<and> (\<forall>i < length (clients t).
                  length (sent (clients (drain_tick t) ! i)) \<le> Suc (length (sent (clients t ! i)))))"
proof -
  let ?s1 = "fold (\<lambda>u t. broadcast t u) us s"
  have q1: "broadcastQueue ?s1 = us" by (simp add: broadcasts_queue empty)
  have c1: "clients ?s1 = clients s" by (rule broadcasts_clients)
  have main: "broadcastQueue (fold fire ts ?s1) = []
     \<and> map view (clients (fold fire ts ?s1)) = map (receive us) (map view (clients s))"
  proof (cases "us = []")
    case True
    then have "?s1 = s" by simp
    then show ?thesis using fires_idle [OF empty, of ts] True by (simp add: receive_Nil comp_def)
  next
    case False
    have iv: "0 < intervals ?s1" using timer False by (rule broadcasts_timer)
    show ?thesis using fires_drain [OF iv, of ts] ticks by (simp add: q1 c1 drains_def)
  qed
  have tick: "\<forall>t. broadcastQueue (drain_tick t) = tl (broadcastQueue t)
            \<and> length (clients (drain_tick t)) = length (clients t)
            \<and> (\<forall>i < length (clients t).
                  length (sent (clients (drain_tick t) ! i)) \<le> Suc (length (sent (clients t ! i))))"
    by (simp add: drain_tick_queue drain_tick_clients deliver_sent split: list.splits)
  have v: "view = (\<lambda>c. (readyState c, map msg_url (sent c)))"
    by (simp add: fun_eq_iff view_def sent_urls_def)
  show ?thesis using main tick unfolding v
    by (simp add: receive_def comp_def)
qed

theorem drain_fifo_witness:
  "\<not> isBroadcasting two_viewers
   \<and> broadcastQueue two_viewers = []
   \<and> length [js ''http://a'', js ''http://b''] \<le> length (filter (\<lambda>t. t = DrainTimer) [DrainTimer, RankTimer, DrainTimer])
   \<and> map (\<lambda>c. (readyState c, map msg_url (sent c)))
        (clients (fold fire [DrainTimer, RankTimer, DrainTimer]
           (fold (\<lambda>u t. broadcast t u) [js ''http://a'', js ''http://b''] two_viewers)))
     = [(OPEN, [js ''http://a'', js ''http://b'']), (CLOSING, [])]"
  using drain_fifo [of two_viewers "[js ''http://a'', js ''http://b'']" "[DrainTimer, RankTimer, DrainTimer]"]
  by (simp add: two_viewers_def fresh_def)

text \<open>
  Claim C2 as stated fails: the queue holds the URL only, and the record is read when the
  event is drained. A page that links to itself is enqueued with rank 0; the rank timer
  fires before the drain tick; the message carries rank 10.
\<close>

theorem delivery_snapshot_counterexample:
  "get_prop (indexedUrls (broadcast self_linked (js ''http://a''))) (js ''http://a'')
     = Some \<lparr>title = js ''A'', links = [js ''http://a''], rank = 0\<rparr>
   \<and> map sent (clients (drain_tick (recalculateRanks (broadcast self_linked (js ''http://a'')))))
     = [[\<lparr>msg_url = js ''http://a'',
          msg_data = Some \<lparr>title = js ''A'', links = [js ''http://a''], rank = 10\<rparr>\<rparr>]]"
  by (simp add: self_linked_def fresh_def broadcast_def drain_tick_def recalculateRanks_def
      recalculate_def backlink_rank_def set_rank_def Object_keys_def Object_values_def
      get_prop_def send_def)

text \<open>
  Claim C2, amended. \<open>broadcast\<close> appends the URL to the queue and leaves the index alone;
  the message pushed to every open viewer when the event is drained carries the record
  stored under the URL at the drain tick.
\<close>

theorem drain_tick_current_record:
  "broadcastQueue (broadcast s url) = broadcastQueue s @ [url]
   \<and> indexedUrls (broadcast s url) = indexedUrls s
   \<and> (\<forall>t rest. broadcastQueue t = url # rest \<longrightarrow>
         clients (drain_tick t)
           = map (\<lambda>c. if readyState c = OPEN
                       then c\<lparr>sent := sent c @ [\<lparr>msg_url = url, msg_data = get_prop (indexedUrls t) url\<rparr>]\<rparr>
                       else c) (clients t))"
  by (simp add: broadcast_def Let_def drain_tick_def send_def)

theorem drain_tick_current_record_witness:
  "broadcastQueue (recalculateRanks (broadcast self_linked (js ''http://a''))) = js ''http://a'' # []
   \<and> clients (drain_tick (recalculateRanks (broadcast self_linked (js ''http://a''))))
     = [\<lparr>readyState = OPEN,
         sent = [\<lparr>msg_url = js ''http://a'',
                  msg_data = get_prop (indexedUrls (recalculateRanks (broadcast self_linked (js ''http://a'')))) (js ''http://a'')\<rparr>]\<rparr>]"
  using drain_tick_current_record [of self_linked "js ''http://a''"]
  by (simp add: self_linked_def fresh_def broadcast_def recalculateRanks_def)

lemma replay_fold:
  "readyState ws = OPEN \<Longrightarrow>
   fold (\<lambda>url c. if readyState c = OPEN then send \<lparr>msg_url = url, msg_data = get_prop idx url\<rparr> c else c) ks ws
     = ws\<lparr>sent := sent ws @ map (\<lambda>url. \<lparr>msg_url = url, msg_data = get_prop idx url\<rparr>) ks\<rparr>"
  by (induction ks arbitrary: ws) (simp_all add: send_def)

lemma replay_not_open:
  "readyState ws \<noteq> OPEN \<Longrightarrow> replay idx ws = ws"
proof -
  assume a: "readyState ws \<noteq> OPEN"
  have "fold (\<lambda>url c. if readyState c = OPEN then send \<lparr>msg_url = url, msg_data = get_prop idx url\<rparr> c else c) ks ws = ws" for ks
    using a by (induction ks) simp_all
  then show ?thesis by (simp add: replay_def)
qed

lemma get_prop_key: "u \<in> set (Object_keys ob) \<Longrightarrow> \<exists>v. get_prop ob u = Some v"
  by (induction ob) (auto simp: Object_keys_def get_prop_def)

lemma get_prop_distinct:
  "distinct (Object_keys ob) \<Longrightarrow> kv \<in> set ob \<Longrightarrow> get_prop ob (fst kv) = Some (snd kv)"
  by (simp add: Object_keys_def get_prop_def)

text \<open>
  Claim C7. A viewer whose socket is open when it connects is appended to \<open>clients\<close> with
  one replay message per key of the index, in key order; there are as many messages as
  page records, each carries the record stored under its URL and none carries no data.
  With unique keys the messages are exactly the entries of the index.
\<close>

theorem connection_replay:
  "clients (connection s OPEN)
     = clients s @ [\<lparr>readyState = OPEN,
                     sent = map (\<lambda>url. \<lparr>msg_url = url, msg_data = get_prop (indexedUrls s) url\<rparr>)
                              (Object_keys (indexedUrls s))\<rparr>]
   \<and> length (sent (last (clients (connection s OPEN)))) = length (indexedUrls s)
   \<and> (\<forall>m \<in> set (sent (last (clients (connection s OPEN)))).
         msg_data m \<noteq> None \<and> msg_data m = get_prop (indexedUrls s) (msg_url m))
   \<and> (distinct (Object_keys (indexedUrls s)) \<longrightarrow>
         sent (last (clients (connection s OPEN)))
           = map (\<lambda>kv. \<lparr>msg_url = fst kv, msg_data = Some (snd kv)\<rparr>) (indexedUrls s))"
proof -
  let ?ms = "map (\<lambda>url. \<lparr>msg_url = url, msg_data = get_prop (indexedUrls s) url\<rparr>) (Object_keys (indexedUrls s))"
  have c: "clients (connection s OPEN) = clients s @ [\<lparr>readyState = OPEN, sent = ?ms\<rparr>]"
    by (simp add: connection_def replay_def replay_fold)
  have l: "sent (last (clients (connection s OPEN))) = ?ms" by (simp add: c)
  have n: "length ?ms = length (indexedUrls s)" by (simp add: Object_keys_def)
  have d: "\<forall>m \<in> set ?ms. msg_data m \<noteq> None \<and> msg_data m = get_prop (indexedUrls s) (msg_url m)"
    by (auto simp: get_prop_key)
  have e: "distinct (Object_keys (indexedUrls s)) \<longrightarrow>
      ?ms = map (\<lambda>kv. \<lparr>msg_url = fst kv, msg_data = Some (snd kv)\<rparr>) (indexedUrls s)"
    by (auto simp: Object_keys_def get_prop_distinct [unfolded Object_keys_def])
  show ?thesis using c n d e unfolding l by simp
qed

theorem connection_replay_witness:
  "distinct (Object_keys (indexedUrls self_linked))
   \<and> sent (last (clients (connection self_linked OPEN)))
     = [\<lparr>msg_url = js ''http://a'', msg_data = Some \<lparr>title = js ''A'', links = [js ''http://a''], rank = 0\<rparr>\<rparr>]"
proof -
  have d: "distinct (Object_keys (indexedUrls self_linked))"
    by (simp add: self_linked_def fresh_def Object_keys_def)
  have "sent (last (clients (connection self_linked OPEN)))
           = map (\<lambda>kv. \<lparr>msg_url = fst kv, msg_data = Some (snd kv)\<rparr>) (indexedUrls self_linked)"
    using connection_replay [of self_linked] d by blast
  then show ?thesis using d by (simp add: self_linked_def fresh_def)
qed

section \<open>Crawler\<close>

lemma get_prop_set_prop:
  "get_prop (set_prop ob k v) k' = (if k' = k then Some v else get_prop ob k')"
  by (induction ob) (auto simp: get_prop_def)

lemma get_prop_set_links:
  "get_prop (set_links idx url ls) k
     = map_option (\<lambda>p. if k = url then p\<lparr>links := ls\<rparr> else p) (get_prop idx k)"
  by (induction idx) (auto simp: get_prop_def set_links_def)

lemma crawl_index [simp]: "indexedUrls (crawl s url d) = indexedUrls s"
  by (simp add: crawl_def)

lemma visited_after_crawl:
  "visited (crawl s url d) = (if d = 0 then visited s else insert url (visited s))"
  by (auto simp: crawl_def)

lemma crawl_pending:
  "pending (crawl s url d) = (if d = 0 \<or> url \<in> visited s then pending s else pending s @ [(url, d)])"
  by (simp add: crawl_def)

lemma crawl_console:
  "console (crawl s url d) = (if d = 0 \<or> url \<in> visited s then console s else console s @ [LogCrawling url])"
  by (simp add: crawl_def)

lemma crawls_depth_zero: "fold (\<lambda>link t. crawl t link 0) ls s = s"
  by (induction ls) (simp_all add: crawl_def)

lemma crawls_index [simp]: "indexedUrls (fold (\<lambda>link t. crawl t link d) ls s) = indexedUrls s"
  by (induction ls arbitrary: s) simp_all

lemma save_fields [simp]:
  "indexedUrls (save ok s) = indexedUrls s" "visited (save ok s) = visited s"
  "pending (save ok s) = pending s" "clients (save ok s) = clients s"
  by (simp_all add: save_def)

lemma broadcast_fields [simp]:
  "indexedUrls (broadcast s u) = indexedUrls s" "visited (broadcast s u) = visited s"
  "pending (broadcast s u) = pending s" "clients (broadcast s u) = clients s"
  "dataJson (broadcast s u) = dataJson s" "console (broadcast s u) = console s"
  by (simp_all add: broadcast_def Let_def)

lemma resume_failure:
  "w url = Inl msg \<Longrightarrow>
   crawl_resume w ok s url depth = s\<lparr>console := console s @ [LogCrawlError url msg]\<rparr>"
  by (simp add: crawl_resume_def)

lemma resume_success:
  "w url = Inr doc \<Longrightarrow>
   crawl_resume w ok s url depth =
     fold (\<lambda>link t. crawl t link (depth - 1)) (extract_links (anchors doc))
       (broadcast
          (save ok (s\<lparr>indexedUrls :=
                        set_links (set_prop (indexedUrls s) url
                           \<lparr>title = (if doc_title doc = [] then js ''No title'' else doc_title doc),
                            links = [], rank = 0\<rparr>) url (extract_links (anchors doc)),
                      console := console s @ [LogIndexed url (length (extract_links (anchors doc)))]\<rparr>))
          url)"
  by (simp add: crawl_resume_def Let_def)

lemma resume_index:
  "w url = Inr doc \<Longrightarrow>
   get_prop (indexedUrls (crawl_resume w ok s url depth)) k
     = (if k = url then Some (new_record doc) else get_prop (indexedUrls s) k)"
  by (simp add: resume_success get_prop_set_links get_prop_set_prop new_record_def option.map_ident)

lemma resume_failure_index:
  "w url = Inl msg \<Longrightarrow> indexedUrls (crawl_resume w ok s url depth) = indexedUrls s"
  by (simp add: resume_failure)

lemma extract_links_two:
  "prefix (js ''http'') a \<Longrightarrow> prefix (js ''http'') b \<Longrightarrow> extract_links [Some a, Some b] = [a, b]"
  by (auto simp: extract_links_def)

lemma settle_at:
  "i < length (pending s) \<Longrightarrow> pending s ! i = (url, depth) \<Longrightarrow>
   settle w ok i s
     = crawl_resume w ok (s\<lparr>pending := take i (pending s) @ drop (Suc i) (pending s)\<rparr>) url depth"
  by (simp add: settle_def)

text \<open>
  Claim C6. When the fetch or the parse of a URL throws, the resumed \<open>crawl\<close> call only
  appends a log line with the URL and the message: no page record is created, no link is
  followed, and the call returns normally; settling a failed request leaves the other
  pending requests as they are. For a seed whose anchors are a reachable and an
  unreachable URL, crawled at depth 2 from a process that has visited nothing, the two
  child requests may settle in either order (\<open>i\<close>); afterwards no request is pending, the
  reachable URL and the seed have page records, the unreachable URL has none, and its
  failure is in the log.
\<close>

theorem fetch_failure_isolated:
  "(\<forall>s url depth msg ok.
      w url = Inl msg \<longrightarrow>
      crawl_resume w ok s url depth = s\<lparr>console := console s @ [LogCrawlError url msg]\<rparr>)
   \<and> (\<forall>s i url depth msg ok.
      i < length (pending s) \<and> pending s ! i = (url, depth) \<and> w url = Inl msg \<longrightarrow>
      settle w ok i s
        = s\<lparr>pending := take i (pending s) @ drop (Suc i) (pending s),
             console := console s @ [LogCrawlError url msg]\<rparr>)
   \<and> (\<forall>s0 seed good bad t gdoc msg i ok1 ok2 ok3.
      w seed = Inr \<lparr>doc_title = t, anchors = [Some good, Some bad]\<rparr>
      \<and> w good = Inr gdoc \<and> w bad = Inl msg
      \<and> prefix (js ''http'') good \<and> prefix (js ''http'') bad
      \<and> seed \<noteq> good \<and> seed \<noteq> bad \<and> good \<noteq> bad
      \<and> visited s0 = {} \<and> pending s0 = [] \<and> get_prop (indexedUrls s0) bad = None
      \<and> i < 2 \<longrightarrow>
      pending (settle w ok1 0 (crawl s0 seed 2)) = [(good, 1), (bad, 1)]
      \<and> pending (settle w ok3 0 (settle w ok2 i (settle w ok1 0 (crawl s0 seed 2)))) = []
      \<and> get_prop (indexedUrls (settle w ok3 0 (settle w ok2 i (settle w ok1 0 (crawl s0 seed 2))))) good
          = Some \<lparr>title = (if doc_title gdoc = [] then js ''No title'' else doc_title gdoc),
                  links = extract_links (anchors gdoc), rank = 0\<rparr>
      \<and> get_prop (indexedUrls (settle w ok3 0 (settle w ok2 i (settle w ok1 0 (crawl s0 seed 2))))) bad
          = None
      \<and> get_prop (indexedUrls (settle w ok3 0 (settle w ok2 i (settle w ok1 0 (crawl s0 seed 2))))) seed
          \<noteq> None
      \<and> LogCrawlError bad msg
          \<in> set (console (settle w ok3 0 (settle w ok2 i (settle w ok1 0 (crawl s0 seed 2))))))"
proof (intro conjI allI impI)
  fix s :: "index state" and url msg :: jstring and depth :: int and ok :: bool
  assume "w url = Inl msg"
  then show "crawl_resume w ok s url depth = s\<lparr>console := console s @ [LogCrawlError url msg]\<rparr>"
    by (rule resume_failure)
next
  fix s :: "index state" and i :: nat and url msg :: jstring and depth :: int and ok :: bool
  assume "i < length (pending s) \<and> pending s ! i = (url, depth) \<and> w url = Inl msg"
  then show "settle w ok i s
        = s\<lparr>pending := take i (pending s) @ drop (Suc i) (pending s),
             console := console s @ [LogCrawlError url msg]\<rparr>"
    by (simp add: settle_at resume_failure)
next
  fix s0 :: "index state" and seed good bad t msg :: jstring and gdoc :: document
    and i :: nat and ok1 ok2 ok3 :: bool
  assume h: "w seed = Inr \<lparr>doc_title = t, anchors = [Some good, Some bad]\<rparr>
      \<and> w good = Inr gdoc \<and> w bad = Inl msg
      \<and> prefix (js ''http'') good \<and> prefix (js ''http'') bad
      \<and> seed \<noteq> good \<and> seed \<noteq> bad \<and> good \<noteq> bad
      \<and> visited s0 = {} \<and> pending s0 = [] \<and> get_prop (indexedUrls s0) bad = None
      \<and> i < 2"
  let ?s1 = "crawl s0 seed 2"
  let ?s2 = "settle w ok1 0 ?s1"
  let ?s3 = "settle w ok2 i ?s2"
  let ?s4 = "settle w ok3 0 ?s3"
  have ne: "good \<noteq> seed" "bad \<noteq> seed" "bad \<noteq> good"
    using h by auto
  have ls: "extract_links [Some good, Some bad] = [good, bad]"
    using h by (simp add: extract_links_two)
  have p1: "pending ?s1 = [(seed, 2)]" and v1: "visited ?s1 = {seed}"
    using h by (simp_all add: crawl_pending visited_after_crawl)
  have s2: "?s2 = crawl_resume w ok1 (?s1\<lparr>pending := []\<rparr>) seed 2"
    using p1 by (simp add: settle_at)
  have p2: "pending ?s2 = [(good, 1), (bad, 1)]"
    using h ne v1 unfolding s2 by (simp add: resume_success ls crawl_pending visited_after_crawl)
  have b2: "get_prop (indexedUrls ?s2) bad = None"
    using h ne unfolding s2 by (simp add: resume_index)
  have sd2: "get_prop (indexedUrls ?s2) seed \<noteq> None"
    using h ne unfolding s2 by (simp add: resume_index)
  show "pending ?s2 = [(good, 1), (bad, 1)]" by (rule p2)
  have "i = 0 \<or> i = 1" using h by auto
  then have fin: "pending ?s4 = []
      \<and> get_prop (indexedUrls ?s4) good = Some (new_record gdoc)
      \<and> get_prop (indexedUrls ?s4) bad = None
      \<and> get_prop (indexedUrls ?s4) seed \<noteq> None
      \<and> LogCrawlError bad msg \<in> set (console ?s4)"
  proof
    assume i: "i = 0"
    have s3: "?s3 = crawl_resume w ok2 (?s2\<lparr>pending := [(bad, 1)]\<rparr>) good 1"
      using p2 i by (simp add: settle_at)
    have p3: "pending ?s3 = [(bad, 1)]"
      using h unfolding s3 by (simp add: resume_success crawls_depth_zero)
    have s4: "?s4 = crawl_resume w ok3 (?s3\<lparr>pending := []\<rparr>) bad 1"
      using p3 by (simp add: settle_at)
    have g3: "get_prop (indexedUrls ?s3) good = Some (new_record gdoc)"
      and b3: "get_prop (indexedUrls ?s3) bad = None"
      and sd3: "get_prop (indexedUrls ?s3) seed \<noteq> None"
      using h ne b2 sd2 unfolding s3 by (simp_all add: resume_index)
    show ?thesis
      using h ne g3 b3 sd3 unfolding s4 by (simp add: resume_failure)
  next
    assume i: "i = 1"
    have s3: "?s3 = crawl_resume w ok2 (?s2\<lparr>pending := [(good, 1)]\<rparr>) bad 1"
      using p2 i by (simp add: settle_at)
    have s3': "?s3 = (?s2\<lparr>pending := [(good, 1)]\<rparr>)\<lparr>console := console ?s2 @ [LogCrawlError bad msg]\<rparr>"
      using h unfolding s3 by (simp add: resume_failure)
    have p3: "pending ?s3 = [(good, 1)]"
      unfolding s3' by simp
    have c3: "LogCrawlError bad msg \<in> set (console ?s3)"
      unfolding s3' by simp
    have i3: "indexedUrls ?s3 = indexedUrls ?s2"
      unfolding s3' by simp
    have s4: "?s4 = crawl_resume w ok3 (?s3\<lparr>pending := []\<rparr>) good 1"
      using p3 by (simp add: settle_at)
    have c4: "LogCrawlError bad msg \<in> set (console ?s4)"
      using h c3 unfolding s4 by (simp add: resume_success crawls_depth_zero save_def)
    have p4: "pending ?s4 = []"
      using h unfolding s4 by (simp add: resume_success crawls_depth_zero)
    show ?thesis
      using h ne b2 sd2 c4 p4 unfolding s4 by (simp add: resume_index i3)
  qed
  show "pending ?s4 = []" using fin by simp
  show "get_prop (indexedUrls ?s4) good
          = Some \<lparr>title = (if doc_title gdoc = [] then js ''No title'' else doc_title gdoc),
                  links = extract_links (anchors gdoc), rank = 0\<rparr>"
    using fin by (simp add: new_record_def)
  show "get_prop (indexedUrls ?s4) bad = None" using fin by simp
  show "get_prop (indexedUrls ?s4) seed \<noteq> None" using fin by simp
  show "LogCrawlError bad msg \<in> set (console ?s4)" using fin by simp
qed

theorem fetch_failure_isolated_witness:
  "example_web (js ''http://bad'') = Inl (js ''ECONNREFUSED'')
   \<and> pending (settle example_web False 0 (settle example_web True 1
        (settle example_web True 0 (crawl fresh (js ''http://seed'') 2)))) = []
   \<and> get_prop (indexedUrls (settle example_web False 0 (settle example_web True 1
        (settle example_web True 0 (crawl fresh (js ''http://seed'') 2))))) (js ''http://good'')
       = Some \<lparr>title = js ''No title'', links = [js ''http://seed'', js ''http://seed''], rank = 0\<rparr>
   \<and> get_prop (indexedUrls (settle example_web False 0 (settle example_web True 1
        (settle example_web True 0 (crawl fresh (js ''http://seed'') 2))))) (js ''http://bad'') = None"
proof -
  note sc = fetch_failure_isolated [of example_web, THEN conjunct2, THEN conjunct2, rule_format,
      of "js ''http://seed''" "js ''Seed''" "js ''http://good''" "js ''http://bad''"
         "\<lparr>doc_title = [], anchors = [Some (js ''/about''), None, Some (js ''http://seed''), Some (js ''http://seed'')]\<rparr>"
         "js ''ECONNREFUSED''" fresh 1 True False True]
  have hyp: "example_web (js ''http://seed'') = Inr \<lparr>doc_title = js ''Seed'', anchors = [Some (js ''http://good''), Some (js ''http://bad'')]\<rparr>
      \<and> example_web (js ''http://good'') = Inr \<lparr>doc_title = [], anchors = [Some (js ''/about''), None, Some (js ''http://seed''), Some (js ''http://seed'')]\<rparr>
      \<and> example_web (js ''http://bad'') = Inl (js ''ECONNREFUSED'')
      \<and> prefix (js ''http'') (js ''http://good'') \<and> prefix (js ''http'') (js ''http://bad'')
      \<and> (js ''http://seed'') \<noteq> (js ''http://good'') \<and> (js ''http://seed'') \<noteq> (js ''http://bad'') \<and> (js ''http://good'') \<noteq> (js ''http://bad'')
      \<and> visited fresh = {} \<and> pending fresh = [] \<and> get_prop (indexedUrls fresh) (js ''http://bad'') = None
      \<and> (1::nat) < 2"
    by (simp add: example_web_def fresh_def get_prop_def)
  show ?thesis
    using sc [OF hyp] by (simp add: example_web_def extract_links_def)
qed

section \<open>\<open>JSON.parse\<close> reads back what \<open>JSON.stringify\<close> writes\<close>

lemma skip_ws_append: "list_all is_ws w \<Longrightarrow> skip_ws (w @ s) = skip_ws s"
  by (induction w) (simp_all add: skip_ws_def)

lemma skip_ws_Cons: "\<not> is_ws c \<Longrightarrow> skip_ws (c # s) = c # s"
  by (simp add: skip_ws_def)

lemma unat_small: "n < 65536 \<Longrightarrow> unat (of_nat n :: code_unit) = n"
  by (simp add: unat_of_nat)

lemma unat_bound: "unat (c :: code_unit) < 65536"
  using unsigned_less [of c, where ?'a = nat] by simp

lemma unat_offset: "k + d < 65536 \<Longrightarrow> unat (of_nat (k + d) :: code_unit) = k + d"
  by (rule unat_small)

lemma hex_val_hex_char: "d < 16 \<Longrightarrow> hex_val (hex_char d) = Some d"
proof -
  assume d: "d < 16"
  show ?thesis
  proof (cases "d < 10")
    case True
    then have "unat (hex_char d) = 48 + d"
      unfolding hex_char_def by (simp only: if_True) (rule unat_offset, simp)
    then show ?thesis using True by (simp add: hex_val_def Let_def)
  next
    case False
    then have "unat (hex_char d) = 87 + d"
      unfolding hex_char_def using d by (simp only: if_False) (rule unat_offset, simp)
    then show ?thesis using False d by (simp add: hex_val_def Let_def)
  qed
qed

lemma hex_digits:
  "4096 * (n div 4096) + 256 * (n div 256 mod 16) + 16 * (n div 16 mod 16) + n mod 16 = (n :: nat)"
proof -
  have a: "n = 16 * (n div 16) + n mod 16" by simp
  have "n div 16 div 16 = n div 256" "n div 256 div 16 = n div 4096"
    by (simp_all add: div_mult2_eq [symmetric])
  then have b: "n div 16 = 16 * (n div 256) + n div 16 mod 16"
    and c: "n div 256 = 16 * (n div 4096) + n div 256 mod 16"
    by (metis mult_div_mod_eq)+
  show ?thesis using a b c by linarith
qed

lemma parse_chars_escape:
  "parse_chars (UnicodeEscape c @ s) = map_option (\<lambda>(str, r). (c # str, r)) (parse_chars s)"
proof -
  let ?n = "unat c"
  have n: "?n < 65536" by (rule unat_bound)
  have h1: "hex_val (hex_char (?n div 4096)) = Some (?n div 4096)"
    using n by (intro hex_val_hex_char) simp
  have h2: "hex_val (hex_char (?n div 256 mod 16)) = Some (?n div 256 mod 16)"
    by (intro hex_val_hex_char) simp
  have h3: "hex_val (hex_char (?n div 16 mod 16)) = Some (?n div 16 mod 16)"
    by (intro hex_val_hex_char) simp
  have h4: "hex_val (hex_char (?n mod 16)) = Some (?n mod 16)"
    by (intro hex_val_hex_char) simp
  have "(of_nat (4096 * (?n div 4096) + 256 * (?n div 256 mod 16) + 16 * (?n div 16 mod 16) + ?n mod 16)
      :: code_unit) = of_nat ?n"
    by (simp only: hex_digits)
  then have rebuilt: "(of_nat (4096 * (?n div 4096) + 256 * (?n div 256 mod 16) + 16 * (?n div 16 mod 16) + ?n mod 16)
      :: code_unit) = c"
    by simp
  have "parse_chars (UnicodeEscape c @ s)
      = map_option (\<lambda>(str, r). (of_nat (4096 * (?n div 4096) + 256 * (?n div 256 mod 16)
            + 16 * (?n div 16 mod 16) + ?n mod 16) # str, r)) (parse_chars s)"
    by (simp add: UnicodeEscape_def Let_def h1 h2 h3 h4 backslash_def dquote_def
        del: of_nat_add of_nat_mult)
  then show ?thesis
    by (simp only: rebuilt)
qed

lemma parse_chars_literal:
  "0x20 \<le> unat c \<Longrightarrow> c \<noteq> dquote \<Longrightarrow> c \<noteq> backslash \<Longrightarrow>
   parse_chars (c # s) = map_option (\<lambda>(str, r). (c # str, r)) (parse_chars s)"
  by simp

lemma parse_chars_quote_char:
  "parse_chars (quote_char c @ s) = map_option (\<lambda>(str, r). (c # str, r)) (parse_chars s)"
proof -
  let ?n = "unat c"
  consider "?n = 0x08" | "?n = 0x09" | "?n = 0x0A" | "?n = 0x0C" | "?n = 0x0D" | "?n = 0x22" | "?n = 0x5C"
    | "?n < 0x20" "?n \<noteq> 0x08" "?n \<noteq> 0x09" "?n \<noteq> 0x0A" "?n \<noteq> 0x0C" "?n \<noteq> 0x0D"
    | "0x20 \<le> ?n" "?n \<noteq> 0x22" "?n \<noteq> 0x5C"
    by linarith
  then show ?thesis
  proof cases
    case 1
    then have c: "c = cu CHR 0x08" by (intro unat_eq_cu) simp
    show ?thesis unfolding c by (simp add: quote_char_def backslash_def dquote_def)
  next
    case 2
    then have c: "c = cu CHR 0x09" by (intro unat_eq_cu) simp
    show ?thesis unfolding c by (simp add: quote_char_def backslash_def dquote_def)
  next
    case 3
    then have c: "c = cu CHR 0x0A" by (intro unat_eq_cu) simp
    show ?thesis unfolding c by (simp add: quote_char_def backslash_def dquote_def)
  next
    case 4
    then have c: "c = cu CHR 0x0C" by (intro unat_eq_cu) simp
    show ?thesis unfolding c by (simp add: quote_char_def backslash_def dquote_def)
  next
    case 5
    then have c: "c = cu CHR 0x0D" by (intro unat_eq_cu) simp
    show ?thesis unfolding c by (simp add: quote_char_def backslash_def dquote_def)
  next
    case 6
    then have c: "c = cu CHR 0x22" by (intro unat_eq_cu) simp
    show ?thesis unfolding c by (simp add: quote_char_def backslash_def dquote_def)
  next
    case 7
    then have c: "c = cu CHR 0x5C" by (intro unat_eq_cu) simp
    show ?thesis unfolding c by (simp add: quote_char_def backslash_def dquote_def)
  next
    case 8
    then have q: "quote_char c = UnicodeEscape c"
      by (simp add: quote_char_def Let_def)
    show ?thesis unfolding q by (rule parse_chars_escape)
  next
    case 9
    have q: "quote_char c = [c]"
      using 9 by (simp add: quote_char_def Let_def)
    have "c \<noteq> dquote" "c \<noteq> backslash"
      using 9 by (auto simp: dquote_def backslash_def)
    then show ?thesis
      unfolding q using 9 by simp
  qed
qed

lemma surrogate_literal:
  assumes "is_high c \<or> is_low c"
  shows "parse_chars (c # s) = map_option (\<lambda>(str, r). (c # str, r)) (parse_chars s)"
proof -
  have "0x20 \<le> unat c" using assms by (auto simp: is_high_def is_low_def)
  moreover have "c \<noteq> dquote" "c \<noteq> backslash"
    using assms by (auto simp: dquote_def backslash_def)
  ultimately show ?thesis by (rule parse_chars_literal)
qed

lemma parse_chars_quoted:
  "parse_chars (quote_units s @ dquote # rest) = Some (s, rest)"
proof (induction s rule: quote_units.induct)
  case 1
  show ?case by simp
next
  case (2 c)
  show ?case by (simp add: parse_chars_escape parse_chars_quote_char)
next
  case (3 c d cs)
  show ?case
  proof (cases "is_high c \<and> is_low d")
    case True
    have q: "quote_units (c # d # cs) = c # d # quote_units cs"
      using True by simp
    have "parse_chars (quote_units cs @ dquote # rest) = Some (cs, rest)"
      using True by (rule "3.IH"(1))
    then show ?thesis
      unfolding q using True by (simp add: surrogate_literal del: parse_chars.simps)
  next
    case False
    show ?thesis
    proof (cases "is_high c \<or> is_low c")
      case True
      have nf: "(is_high c \<and> is_low d) = False" using False by simp
      have t: "(is_high c \<or> is_low c) = True" using True by simp
      have q: "quote_units (c # d # cs) = UnicodeEscape c @ quote_units (d # cs)"
        by (simp only: quote_units.simps nf t if_False if_True)
      have "parse_chars (quote_units (d # cs) @ dquote # rest) = Some (d # cs, rest)"
        using False True by (rule "3.IH"(2))
      then show ?thesis
        unfolding q by (simp add: parse_chars_escape del: parse_chars.simps quote_units.simps)
    next
      case lit: False
      have nf: "(is_high c \<and> is_low d) = False" using False by simp
      have nl: "(is_high c \<or> is_low c) = False" using lit by simp
      have q: "quote_units (c # d # cs) = quote_char c @ quote_units (d # cs)"
        by (simp only: quote_units.simps nf nl if_False)
      have "parse_chars (quote_units (d # cs) @ dquote # rest) = Some (d # cs, rest)"
        using False lit by (rule "3.IH"(3))
      then show ?thesis
        unfolding q by (simp add: parse_chars_quote_char del: parse_chars.simps quote_units.simps)
    qed
  qed
qed

lemma unat_digit_char: "d < 10 \<Longrightarrow> unat (digit_char d) = 48 + d"
  unfolding digit_char_def by (rule unat_offset) simp

lemma is_digit_digit_char: "d < 10 \<Longrightarrow> is_digit (digit_char d)"
  by (simp add: is_digit_def unat_digit_char)

lemma digit_val_digit_char: "d < 10 \<Longrightarrow> digit_val (digit_char d) = d"
  by (simp add: digit_val_def unat_digit_char)

lemma digit_char_zero: "d < 10 \<Longrightarrow> digit_char d = cu CHR ''0'' \<longleftrightarrow> d = 0"
  by (simp add: word_unat_eq_iff unat_digit_char)

lemma nat_digits_not_Nil: "nat_digits n \<noteq> []"
  by (subst nat_digits.simps) simp

lemma nat_digits_all: "list_all is_digit (nat_digits n)"
proof (induction n rule: nat_digits.induct)
  case (1 n)
  show ?case
  proof (cases "n < 10")
    case True
    then show ?thesis by (subst nat_digits.simps) (simp add: is_digit_digit_char)
  next
    case False
    with 1 show ?thesis by (subst nat_digits.simps) (simp add: is_digit_digit_char)
  qed
qed

lemma digits_val_snoc: "digits_val (ds @ [c]) = 10 * digits_val ds + digit_val c"
  by (simp add: digits_val_def)

lemma digits_val_nat_digits: "digits_val (nat_digits n) = n"
proof (induction n rule: nat_digits.induct)
  case (1 n)
  show ?case
  proof (cases "n < 10")
    case True
    then show ?thesis
      by (subst nat_digits.simps) (simp add: digits_val_def digit_val_digit_char)
  next
    case False
    with 1 show ?thesis
      by (subst nat_digits.simps) (simp add: digits_val_snoc digit_val_digit_char)
  qed
qed

lemma nat_digits_hd: "0 < n \<Longrightarrow> hd (nat_digits n) \<noteq> (cu CHR ''0'')"
proof (induction n rule: nat_digits.induct)
  case (1 n)
  show ?case
  proof (cases "n < 10")
    case True
    then show ?thesis using "1.prems"
      by (subst nat_digits.simps) (simp add: digit_char_zero)
  next
    case False
    then have "0 < n div 10" by simp
    with 1 False have "hd (nat_digits (n div 10)) \<noteq> (cu CHR ''0'')" by simp
    then show ?thesis using False
      by (subst nat_digits.simps) (simp add: nat_digits_not_Nil)
  qed
qed

lemma nat_digits_leading: "1 < length (nat_digits n) \<Longrightarrow> hd (nat_digits n) \<noteq> (cu CHR ''0'')"
proof (cases "n = 0")
  case True
  assume "1 < length (nat_digits n)"
  then show ?thesis using True by (subst (asm) nat_digits.simps) simp
next
  case False
  then show ?thesis by (simp add: nat_digits_hd)
qed

lemma takeWhile_digits:
  "list_all is_digit ds \<Longrightarrow> delimited rest \<Longrightarrow> takeWhile is_digit (ds @ rest) = ds"
  by (induction ds) (auto simp: delimited_def split: list.splits)

lemma dropWhile_digits:
  "list_all is_digit ds \<Longrightarrow> delimited rest \<Longrightarrow> dropWhile is_digit (ds @ rest) = rest"
  by (induction ds) (auto simp: delimited_def split: list.splits)

lemma parse_fraction_delimited: "delimited rest \<Longrightarrow> parse_fraction rest = Some ([], rest)"
  by (auto simp: parse_fraction_def delimited_def split: list.splits)

lemma parse_exponent_delimited: "delimited rest \<Longrightarrow> parse_exponent rest = Some ([], rest)"
  by (auto simp: parse_exponent_def delimited_def split: list.splits)

lemma parse_number_digits:
  assumes "delimited rest"
  shows "parse_number (nat_digits n @ rest) = Some (JNum (int n), rest)"
proof -
  obtain c cs where ds: "nat_digits n = c # cs"
    using nat_digits_not_Nil by (cases "nat_digits n") auto
  have "is_digit c" using nat_digits_all [of n] by (simp add: ds)
  then have c: "c \<noteq> (cu CHR ''-'')" by (auto simp: is_digit_def)
  have t: "takeWhile is_digit (nat_digits n @ rest) = nat_digits n"
    and d: "dropWhile is_digit (nat_digits n @ rest) = rest"
    using assms by (simp_all add: takeWhile_digits dropWhile_digits nat_digits_all)
  have sg: "(case nat_digits n @ rest of [] \<Rightarrow> [] | c # r \<Rightarrow> if c = cu CHR ''-'' then [c] else []) = []"
    using c by (simp add: ds)
  have lz: "\<not> (Suc 0 < length (nat_digits n) \<and> hd (nat_digits n) = cu CHR ''0'')"
    using nat_digits_leading [of n] by auto
  show ?thesis
    unfolding parse_number_def sg
    using assms
    by (simp add: Let_def lz t d nat_digits_not_Nil parse_fraction_delimited parse_exponent_delimited
        digits_val_nat_digits)
qed

lemma parse_number_toString:
  assumes "delimited rest"
  shows "parse_number (Number_toString i @ rest) = Some (JNum i, rest)"
proof (cases "i < 0")
  case False
  then show ?thesis
    using parse_number_digits [OF assms, of "nat i"] by (simp add: Number_toString_def)
next
  case True
  let ?n = "nat (- i)"
  have t: "takeWhile is_digit (nat_digits ?n @ rest) = nat_digits ?n"
    and d: "dropWhile is_digit (nat_digits ?n @ rest) = rest"
    using assms by (simp_all add: takeWhile_digits dropWhile_digits nat_digits_all)
  have lz: "\<not> (Suc 0 < length (nat_digits ?n) \<and> hd (nat_digits ?n) = cu CHR ''0'')"
    using nat_digits_leading [of ?n] by auto
  show ?thesis
    unfolding parse_number_def
    using True assms
    by (simp add: Let_def lz Number_toString_def t d nat_digits_not_Nil parse_fraction_delimited
        parse_exponent_delimited digits_val_nat_digits)
qed

lemma reads_backD:
  "reads_back v \<Longrightarrow> list_all is_ws w \<Longrightarrow> list_all is_ws ind \<Longrightarrow> delimited rest \<Longrightarrow> fuel v \<le> n \<Longrightarrow>
   parse_value n (w @ SerializeJSONProperty ind v @ rest) = Some (v, rest)"
  by (simp add: reads_back_def)

lemma skip_ws_to: "list_all is_ws w \<Longrightarrow> \<not> is_ws c \<Longrightarrow> skip_ws (w @ c # s) = c # s"
  by (simp add: skip_ws_append skip_ws_Cons)

lemma is_ws_simps [simp]:
  "is_ws newline" "is_ws (cu CHR '' '')" "\<not> is_ws (cu CHR '','')" "\<not> is_ws (cu CHR '']'')" "\<not> is_ws (cu CHR ''}'')"
  "\<not> is_ws (cu CHR '':'')" "\<not> is_ws dquote" "\<not> is_ws (cu CHR ''['')" "\<not> is_ws (cu CHR ''{'')"
  by (simp_all add: is_ws_def newline_def dquote_def)

lemma delimited_simps [simp]:
  "delimited []" "delimited (newline # s)" "delimited (cu CHR '','' # s)"
  by (simp_all add: delimited_def is_digit_def newline_def)

lemma need_pos: "need (f # fs) \<le> n \<Longrightarrow> \<exists>m. n = Suc m \<and> f \<le> m \<and> need fs \<le> m"
  by (cases n) auto

lemma elements_read_back:
  assumes "\<forall>x \<in> set xs. reads_back x" and "xs \<noteq> []"
    and "list_all is_ws w" and "list_all is_ws ind'" and "list_all is_ws ind"
    and "need (map fuel xs) \<le> n"
  shows "parse_elements n
           (w @ join (cu CHR '','' # newline # ind') (map (SerializeJSONProperty ind') xs)
              @ newline # ind @ cu CHR '']'' # rest)
         = Some (xs, rest)"
  using assms
proof (induction xs arbitrary: n w)
  case Nil
  then show ?case by simp
next
  case (Cons x xs)
  obtain m where n: "n = Suc m" and fx: "fuel x \<le> m" and fxs: "need (map fuel xs) \<le> m"
    using need_pos [of "fuel x" "map fuel xs" n] Cons.prems(6) by auto
  have rb: "reads_back x" using Cons.prems(1) by simp
  show ?case
  proof (cases xs)
    case Nil
    have pv: "parse_value m (w @ SerializeJSONProperty ind' x @ (newline # ind @ cu CHR '']'' # rest))
        = Some (x, newline # ind @ cu CHR '']'' # rest)"
      using rb Cons.prems(3,4) fx by (intro reads_backD) simp_all
    have sk: "skip_ws (newline # ind @ cu CHR '']'' # rest) = cu CHR '']'' # rest"
      using skip_ws_to [of "newline # ind" "cu CHR '']''" rest] Cons.prems(5) by simp
    show ?thesis
      using pv by (simp add: Nil n sk)
  next
    case (Cons y ys)
    let ?tail = "join (cu CHR '','' # newline # ind') (map (SerializeJSONProperty ind') (y # ys))
              @ newline # ind @ cu CHR '']'' # rest"
    have pv: "parse_value m (w @ SerializeJSONProperty ind' x @ (cu CHR '','' # (newline # ind') @ ?tail))
        = Some (x, cu CHR '','' # (newline # ind') @ ?tail)"
      using rb Cons.prems(3,4) fx by (intro reads_backD) simp_all
    have sk: "skip_ws (cu CHR '','' # (newline # ind') @ ?tail) = cu CHR '','' # (newline # ind') @ ?tail"
      by (rule skip_ws_Cons) simp
    have ih: "parse_elements m ((newline # ind') @ ?tail) = Some (y # ys, rest)"
      unfolding Cons [symmetric]
      using Cons.prems(1,4,5) fxs Cons
      by (intro Cons.IH) simp_all
    show ?thesis
      using pv ih sk by (simp add: Cons n)
  qed
qed

lemma join_Cons: "ss \<noteq> [] \<Longrightarrow> join sep (s # ss) = s @ sep @ join sep ss"
  by (cases ss) simp_all

lemma members_read_back:
  assumes "\<forall>kv \<in> set kvs. reads_back (snd kv)" and "kvs \<noteq> []"
    and "list_all is_ws w" and "list_all is_ws ind'" and "list_all is_ws ind"
    and "need (map (\<lambda>kv. fuel (snd kv)) kvs) \<le> n"
  shows "parse_members n
           (w @ join (cu CHR '','' # newline # ind') (map (member_text ind') kvs)
              @ newline # ind @ cu CHR ''}'' # rest)
         = Some (kvs, rest)"
  using assms
proof (induction kvs arbitrary: n w)
  case Nil
  then show ?case by simp
next
  case (Cons kv kvs)
  obtain k v where kv: "kv = (k, v)" by (cases kv)
  obtain m where n: "n = Suc m" and fx: "fuel v \<le> m"
    and fxs: "need (map (\<lambda>kv. fuel (snd kv)) kvs) \<le> m"
    using need_pos [of "fuel v" "map (\<lambda>kv. fuel (snd kv)) kvs" n] Cons.prems(6) by (auto simp: kv)
  have rb: "reads_back v" using Cons.prems(1) by (simp add: kv)
  have key: "parse_chars (quote_units k @ dquote # t) = Some (k, t)" for t
    by (rule parse_chars_quoted)
  have entry: "member_text ind' (k, v)
      = dquote # quote_units k @ dquote # cu CHR '':'' # cu CHR '' '' # SerializeJSONProperty ind' v"
    by (simp add: member_text_def QuoteJSONString_def)
  have sk0: "skip_ws (w @ dquote # t) = dquote # t" for t
    using Cons.prems(3) by (simp add: skip_ws_to)
  have sk1: "skip_ws (cu CHR '':'' # t) = cu CHR '':'' # t" for t
    by (rule skip_ws_Cons) simp
  show ?case
  proof (cases "kvs = []")
    case True
    have pv: "parse_value m (js '' '' @ SerializeJSONProperty ind' v @ (newline # ind @ cu CHR ''}'' # rest))
        = Some (v, newline # ind @ cu CHR ''}'' # rest)"
      using rb Cons.prems(4) fx by (intro reads_backD) simp_all
    have sk: "skip_ws (newline # ind @ cu CHR ''}'' # rest) = cu CHR ''}'' # rest"
      using skip_ws_to [of "newline # ind" "cu CHR ''}''" rest] Cons.prems(5) by simp
    show ?thesis
      using pv by (simp add: True n kv entry sk0 key sk1 sk)
  next
    case False
    let ?tail = "join (cu CHR '','' # newline # ind') (map (member_text ind') kvs)
              @ newline # ind @ cu CHR ''}'' # rest"
    have pv: "parse_value m (js '' '' @ SerializeJSONProperty ind' v @ (cu CHR '','' # (newline # ind') @ ?tail))
        = Some (v, cu CHR '','' # (newline # ind') @ ?tail)"
      using rb Cons.prems(4) fx by (intro reads_backD) simp_all
    have sk: "skip_ws (cu CHR '','' # (newline # ind') @ ?tail) = cu CHR '','' # (newline # ind') @ ?tail"
      by (rule skip_ws_Cons) simp
    have ih: "parse_members m ((newline # ind') @ ?tail) = Some (kvs, rest)"
      using Cons.prems(1,4,5) fxs False
      by (intro Cons.IH) simp_all
    show ?thesis
      using pv ih sk False
      by (simp add: join_Cons n kv entry sk0 key sk1)
  qed
qed

lemma set_prop_fresh: "k \<notin> fst ` set ob \<Longrightarrow> set_prop ob k v = ob @ [(k, v)]"
  by (induction ob) auto

lemma make_obj_fold:
  "distinct (map fst (acc @ ms)) \<Longrightarrow>
   fold (\<lambda>kv ob. set_prop ob (fst kv) (snd kv)) ms acc = acc @ ms"
proof (induction ms arbitrary: acc)
  case Nil
  then show ?case by simp
next
  case (Cons kv ms)
  have "fst kv \<notin> fst ` set acc" using Cons.prems by auto
  then have "set_prop acc (fst kv) (snd kv) = acc @ [kv]" by (simp add: set_prop_fresh)
  moreover have "distinct (map fst ((acc @ [kv]) @ ms))" using Cons.prems by simp
  ultimately show ?case using Cons.IH [of "acc @ [kv]"] by simp
qed

lemma make_obj_distinct: "distinct (map fst ms) \<Longrightarrow> make_obj ms = ms"
  using make_obj_fold [of "[]" ms] by (simp add: make_obj_def)

lemma serialize_obj:
  "kvs \<noteq> [] \<Longrightarrow>
   SerializeJSONProperty ind (JObj kvs)
     = cu CHR ''{'' # newline # (ind @ gap)
       @ join (cu CHR '','' # newline # (ind @ gap)) (map (member_text (ind @ gap)) kvs)
       @ newline # ind @ js ''}''"
proof -
  have "(\<lambda>kv. QuoteJSONString (fst kv) @ js '': '' @ SerializeJSONProperty (ind @ gap) (snd kv))
      = member_text (ind @ gap)"
    by (simp add: fun_eq_iff member_text_def)
  then show "kvs \<noteq> [] \<Longrightarrow> ?thesis" by simp
qed

lemma member_text_starts: "\<exists>t. member_text ind kv = dquote # t"
  by (simp add: member_text_def QuoteJSONString_def)

lemma number_starts:
  "\<exists>c cs. Number_toString i = c # cs \<and> (c = cu CHR ''-'' \<or> is_digit c)"
proof (cases "i < 0")
  case True
  then show ?thesis by (simp add: Number_toString_def)
next
  case False
  obtain c cs where ds: "nat_digits (nat i) = c # cs"
    using nat_digits_not_Nil by (cases "nat_digits (nat i)") auto
  have "is_digit c" using nat_digits_all [of "nat i"] by (simp add: ds)
  then show ?thesis using False by (simp add: Number_toString_def ds)
qed

lemma digit_not_bracket:
  "c = cu CHR ''-'' \<or> is_digit c \<Longrightarrow>
   \<not> is_ws c \<and> c \<noteq> (cu CHR ''{'') \<and> c \<noteq> (cu CHR ''['') \<and> c \<noteq> dquote \<and> c \<noteq> (cu CHR '']'') \<and> c \<noteq> (cu CHR ''}'')"
  by (auto simp: is_digit_def is_ws_def dquote_def)

text \<open>The first character of a serialised value is not white space and closes nothing.\<close>

lemma serialize_starts:
  "wf_json v \<Longrightarrow>
   \<exists>c cs. SerializeJSONProperty ind v = c # cs \<and> \<not> is_ws c \<and> c \<noteq> (cu CHR '']'') \<and> c \<noteq> (cu CHR ''}'')"
proof (cases v)
  case (JNum i)
  obtain c cs where "Number_toString i = c # cs" "c = cu CHR ''-'' \<or> is_digit c"
    using number_starts by blast
  then show ?thesis using digit_not_bracket [of c] by (simp add: JNum)
next
  case (JFrac l)
  assume "wf_json v"
  then show ?thesis by (simp add: JFrac)
qed (auto simp: QuoteJSONString_def is_ws_def dquote_def)

lemma fuel_Suc: "fuel v \<le> n \<Longrightarrow> \<exists>m. n = Suc m"
  by (cases v; cases n) simp_all

lemma reads_back_null: "reads_back JNull"
  unfolding reads_back_def
proof (intro allI impI)
  fix ind n rest w
  assume w: "list_all is_ws w" and "fuel JNull \<le> n"
  then obtain m where n: "n = Suc m" using fuel_Suc by blast
  have sk: "skip_ws (w @ cu CHR ''n'' # t) = cu CHR ''n'' # t" for t
    using w by (intro skip_ws_to) (simp_all add: is_ws_def)
  show "parse_value n (w @ SerializeJSONProperty ind JNull @ rest) = Some (JNull, rest)"
    by (simp add: n sk dquote_def is_digit_def)
qed

lemma reads_back_bool: "reads_back (JBool b)"
  unfolding reads_back_def
proof (intro allI impI)
  fix ind n rest w
  assume w: "list_all is_ws w" and "fuel (JBool b) \<le> n"
  then obtain m where n: "n = Suc m" using fuel_Suc by blast
  have sk: "skip_ws (w @ cu CHR ''t'' # t) = cu CHR ''t'' # t" "skip_ws (w @ cu CHR ''f'' # t) = cu CHR ''f'' # t" for t
    using w by (simp_all add: skip_ws_to is_ws_def)
  show "parse_value n (w @ SerializeJSONProperty ind (JBool b) @ rest) = Some (JBool b, rest)"
    by (cases b) (simp_all add: n sk dquote_def is_digit_def)
qed

lemma reads_back_num: "reads_back (JNum i)"
  unfolding reads_back_def
proof (intro allI impI)
  fix ind n rest w
  assume w: "list_all is_ws w" and d: "delimited rest" and "fuel (JNum i) \<le> n"
  then obtain m where n: "n = Suc m" using fuel_Suc by blast
  obtain c cs where t: "Number_toString i = c # cs" and c: "c = cu CHR ''-'' \<or> is_digit c"
    using number_starts by blast
  note nb = digit_not_bracket [OF c]
  have sk: "skip_ws (w @ c # cs @ rest) = c # cs @ rest"
    using w nb by (simp add: skip_ws_to)
  have pn: "parse_number (c # cs @ rest) = Some (JNum i, rest)"
    using parse_number_toString [OF d, of i] by (simp add: t)
  show "parse_value n (w @ SerializeJSONProperty ind (JNum i) @ rest) = Some (JNum i, rest)"
    using c nb by (simp add: n t sk pn)
qed

lemma reads_back_str: "reads_back (JStr s)"
  unfolding reads_back_def
proof (intro allI impI)
  fix ind n rest w
  assume w: "list_all is_ws w" and "fuel (JStr s) \<le> n"
  then obtain m where n: "n = Suc m" using fuel_Suc by blast
  have sk: "skip_ws (w @ dquote # t) = dquote # t" for t
    using w by (simp add: skip_ws_to)
  have dq: "dquote \<noteq> (cu CHR ''{'')" "dquote \<noteq> (cu CHR ''['')"
    by (simp_all add: dquote_def)
  show "parse_value n (w @ SerializeJSONProperty ind (JStr s) @ rest) = Some (JStr s, rest)"
    by (simp add: n QuoteJSONString_def sk dq parse_chars_quoted)
qed

lemma ws_gap [simp]: "list_all is_ws gap"
  by (simp add: gap_def)

lemma join_starts: "s = c # cs \<Longrightarrow> \<exists>t. join sep (s # ss) = c # t"
  by (cases ss) simp_all

lemma reads_back_arr:
  assumes "\<forall>x \<in> set xs. reads_back x" and "\<forall>x \<in> set xs. wf_json x"
  shows "reads_back (JArr xs)"
  unfolding reads_back_def
proof (intro allI impI)
  fix ind n rest w
  assume w: "list_all is_ws w" and i: "list_all is_ws ind" and f: "fuel (JArr xs) \<le> n"
  then obtain m where n: "n = Suc m" using fuel_Suc by blast
  have sk: "skip_ws (w @ cu CHR ''['' # t) = cu CHR ''['' # t" for t
    using w by (simp add: skip_ws_to)
  show "parse_value n (w @ SerializeJSONProperty ind (JArr xs) @ rest) = Some (JArr xs, rest)"
  proof (cases "xs = []")
    case True
    have "skip_ws (cu CHR '']'' # rest) = cu CHR '']'' # rest" by (rule skip_ws_Cons) simp
    then show ?thesis by (simp add: True n sk)
  next
    case False
    let ?items = "join (cu CHR '','' # newline # (ind @ gap)) (map (SerializeJSONProperty (ind @ gap)) xs)"
    let ?body = "?items @ newline # ind @ cu CHR '']'' # rest"
    have el: "parse_elements m ((newline # (ind @ gap)) @ ?body) = Some (xs, rest)"
      using assms(1) False i f
      by (intro elements_read_back) (simp_all add: n)
    obtain x xs' where xs: "xs = x # xs'" using False by (cases xs) auto
    obtain c cs where "SerializeJSONProperty (ind @ gap) x = c # cs"
      and cn: "\<not> is_ws c" "c \<noteq> (cu CHR '']'')"
      using serialize_starts [of x "ind @ gap"] assms(2) xs by auto
    then obtain t where items: "?items = c # t"
      using join_starts [of "SerializeJSONProperty (ind @ gap) x" c cs] by (auto simp: xs)
    have "skip_ws ((newline # (ind @ gap)) @ c # t @ newline # ind @ cu CHR '']'' # rest)
        = c # t @ newline # ind @ cu CHR '']'' # rest"
      using i cn by (intro skip_ws_to) simp_all
    then have first: "skip_ws ((newline # (ind @ gap)) @ ?body) = c # t @ newline # ind @ cu CHR '']'' # rest"
      by (simp add: items)
    show ?thesis
      using el first cn False by (simp add: n sk)
  qed
qed

lemma reads_back_obj:
  assumes "\<forall>kv \<in> set kvs. reads_back (snd kv)" and "distinct (map fst kvs)"
  shows "reads_back (JObj kvs)"
  unfolding reads_back_def
proof (intro allI impI)
  fix ind n rest w
  assume w: "list_all is_ws w" and i: "list_all is_ws ind" and f: "fuel (JObj kvs) \<le> n"
  then obtain m where n: "n = Suc m" using fuel_Suc by blast
  have sk: "skip_ws (w @ cu CHR ''{'' # t) = cu CHR ''{'' # t" for t
    using w by (simp add: skip_ws_to)
  have br: "(cu CHR ''{'') \<noteq> (cu CHR ''['')" by simp
  show "parse_value n (w @ SerializeJSONProperty ind (JObj kvs) @ rest) = Some (JObj kvs, rest)"
  proof (cases "kvs = []")
    case True
    have "skip_ws (cu CHR ''}'' # rest) = cu CHR ''}'' # rest" by (rule skip_ws_Cons) simp
    then show ?thesis by (simp add: True n sk)
  next
    case False
    let ?items = "join (cu CHR '','' # newline # (ind @ gap)) (map (member_text (ind @ gap)) kvs)"
    let ?body = "?items @ newline # ind @ cu CHR ''}'' # rest"
    have el: "parse_members m ((newline # (ind @ gap)) @ ?body) = Some (kvs, rest)"
      using assms(1) False i f
      by (intro members_read_back) (simp_all add: n)
    obtain kv kvs' where kvs: "kvs = kv # kvs'" using False by (cases kvs) auto
    obtain cs where "member_text (ind @ gap) kv = dquote # cs"
      using member_text_starts by blast
    then obtain t where items: "?items = dquote # t"
      using join_starts [of "member_text (ind @ gap) kv" dquote cs] by (auto simp: kvs)
    have "skip_ws ((newline # (ind @ gap)) @ dquote # t @ newline # ind @ cu CHR ''}'' # rest)
        = dquote # t @ newline # ind @ cu CHR ''}'' # rest"
      using i by (intro skip_ws_to) simp_all
    then have first: "skip_ws ((newline # (ind @ gap)) @ ?body) = dquote # t @ newline # ind @ cu CHR ''}'' # rest"
      by (simp add: items)
    have dq: "dquote \<noteq> (cu CHR ''}'')" by (simp add: dquote_def)
    show ?thesis
      using el first dq False assms(2)
      by (simp add: n sk serialize_obj make_obj_distinct del: SerializeJSONProperty.simps)
  qed
qed

lemma wf_reads_back: "wf_json v \<Longrightarrow> reads_back v"
proof (induction v)
  case JNull
  show ?case by (rule reads_back_null)
next
  case (JBool b)
  show ?case by (rule reads_back_bool)
next
  case (JNum i)
  show ?case by (rule reads_back_num)
next
  case (JFrac l)
  then show ?case by simp
next
  case (JStr s)
  show ?case by (rule reads_back_str)
next
  case (JArr xs)
  then show ?case by (intro reads_back_arr) simp_all
next
  case (JObj kvs)
  have "\<forall>kv \<in> set kvs. reads_back (snd kv)"
  proof
    fix kv assume kv: "kv \<in> set kvs"
    obtain k v where "kv = (k, v)" by (cases kv)
    then show "reads_back (snd kv)" using JObj kv by auto
  qed
  then show ?case using JObj.prems by (intro reads_back_obj) simp_all
qed

lemma need_join:
  assumes "\<forall>x \<in> set xs. f x \<le> length (g x)" and "xs \<noteq> []" and "sep \<noteq> []"
  shows "need (map f xs) \<le> Suc (length (join sep (map g xs)))"
  using assms
proof (induction xs)
  case Nil
  then show ?case by simp
next
  case (Cons x xs)
  show ?case
  proof (cases "xs = []")
    case True
    then show ?thesis using Cons.prems by simp
  next
    case False
    have "need (map f xs) \<le> Suc (length (join sep (map g xs)))"
      using Cons False by simp
    moreover have "f x \<le> length (g x)" using Cons.prems by simp
    moreover obtain c cs where "sep = c # cs" using Cons.prems by (cases sep) auto
    ultimately show ?thesis using False by (simp add: join_Cons)
  qed
qed

lemma Number_toString_not_Nil: "Number_toString i \<noteq> []"
  by (simp add: Number_toString_def nat_digits_not_Nil)

lemma fuel_length: "wf_json v \<Longrightarrow> fuel v \<le> length (SerializeJSONProperty ind v)"
proof (induction v arbitrary: ind)
  case (JNum i)
  show ?case using Number_toString_not_Nil [of i] by (cases "Number_toString i") simp_all
next
  case (JArr xs)
  show ?case
  proof (cases "xs = []")
    case True
    then show ?thesis by simp
  next
    case False
    have "need (map fuel xs)
        \<le> Suc (length (join (cu CHR '','' # newline # (ind @ gap)) (map (SerializeJSONProperty (ind @ gap)) xs)))"
      using JArr False by (intro need_join) simp_all
    then show ?thesis using False by simp
  qed
next
  case (JObj kvs)
  show ?case
  proof (cases "kvs = []")
    case True
    then show ?thesis by simp
  next
    case False
    have "\<forall>kv \<in> set kvs. fuel (snd kv) \<le> length (member_text (ind @ gap) kv)"
    proof
      fix kv assume kv: "kv \<in> set kvs"
      obtain k v where e: "kv = (k, v)" by (cases kv)
      have "fuel v \<le> length (SerializeJSONProperty (ind @ gap) v)"
        using JObj kv e by auto
      then show "fuel (snd kv) \<le> length (member_text (ind @ gap) kv)"
        by (simp add: e member_text_def)
    qed
    then have "need (map (\<lambda>kv. fuel (snd kv)) kvs)
        \<le> Suc (length (join (cu CHR '','' # newline # (ind @ gap)) (map (member_text (ind @ gap)) kvs)))"
      using False by (intro need_join) simp_all
    then show ?thesis using False by (simp add: serialize_obj del: SerializeJSONProperty.simps)
  qed
qed (simp_all add: QuoteJSONString_def)

lemma JSON_parse_stringify: "wf_json v \<Longrightarrow> JSON_parse (JSON_stringify v) = Some v"
proof -
  assume wf: "wf_json v"
  let ?text = "SerializeJSONProperty [] v"
  have "parse_value (Suc (length ?text)) ([] @ ?text @ []) = Some (v, [])"
    using wf_reads_back [OF wf] fuel_length [OF wf, of "[]"]
    by (intro reads_backD) simp_all
  then show ?thesis
    by (simp add: JSON_parse_def JSON_stringify_def skip_ws_def)
qed

lemma wf_page_json: "wf_json (page_json p)"
  by (simp add: page_json_def)

lemma wf_index_json: "distinct (Object_keys idx) \<Longrightarrow> wf_json (index_json idx)"
  by (auto simp: index_json_def Object_keys_def comp_def case_prod_unfold wf_page_json)

lemma as_page_json: "as_page (page_json p) = Some p"
  by (simp add: as_page_def page_json_def get_prop_def list_all_iff is_str_def str_of_def comp_def)

lemma as_index_json: "as_index (index_json idx) = Some idx"
  by (simp add: as_index_def index_json_def list_all_iff case_prod_unfold as_page_json comp_def)

lemma index_json_inj: "index_json a = index_json b \<Longrightarrow> a = b"
  by (metis as_index_json option.inject)

section \<open>The text of the data file\<close>

text \<open>
  The text that \<open>JSON.stringify\<close> produces contains no lone surrogate: a lone surrogate
  in a string value is written as an escape of six ASCII characters. Writing that text to
  the file as UTF-8 and reading it back therefore returns the same text.
\<close>

lemma replacement_plain: "plain (0xFFFD :: code_unit)"
  by (simp add: plain_def is_high_def is_low_def)

lemma plain_cu [simp]: "plain (cu c)"
  by (simp add: plain_def)

lemma intact_Nil [simp]: "intact []"
  by (simp add: intact_def)

lemma intact_plain_Cons: "plain c \<Longrightarrow> intact (c # t) = intact t"
  by (cases t) (auto simp: intact_def plain_def)

lemma intact_pair: "is_high c \<Longrightarrow> is_low d \<Longrightarrow> intact (c # d # t) = intact t"
  by (simp add: intact_def)

lemma intact_lone:
  "is_high c \<or> is_low c \<Longrightarrow> (case t of d # r \<Rightarrow> \<not> (is_high c \<and> is_low d) | [] \<Rightarrow> True) \<Longrightarrow>
   \<not> intact (c # t)"
proof -
  assume s: "is_high c \<or> is_low c" and l: "case t of d # r \<Rightarrow> \<not> (is_high c \<and> is_low d) | [] \<Rightarrow> True"
  have "c \<noteq> 0xFFFD" using s replacement_plain by (auto simp: plain_def)
  then show ?thesis using s l by (cases t) (auto simp: intact_def)
qed

lemma intact_plain_append: "list_all plain a \<Longrightarrow> intact (a @ t) = intact t"
  by (induction a) (simp_all add: intact_plain_Cons)

lemma intact_plain: "list_all plain a \<Longrightarrow> intact a"
  using intact_plain_append [of a "[]"] by simp

lemma intact_append: "intact a \<Longrightarrow> intact b \<Longrightarrow> intact (a @ b)"
proof (induction a rule: utf8_text.induct)
  case 1
  then show ?case by simp
next
  case (2 c)
  have "plain c"
  proof (rule ccontr)
    assume "\<not> plain c"
    then have "is_high c \<or> is_low c" by (simp add: plain_def)
    then have "\<not> intact [c]" by (rule intact_lone) simp
    then show False using 2 by simp
  qed
  then show ?case using 2 by (simp add: intact_plain_Cons)
next
  case (3 c d cs)
  show ?case
  proof (cases "is_high c \<and> is_low d")
    case True
    then show ?thesis using 3 by (simp add: intact_pair)
  next
    case False
    have p: "plain c"
    proof (rule ccontr)
      assume "\<not> plain c"
      then have "is_high c \<or> is_low c" by (simp add: plain_def)
      then have "\<not> intact (c # d # cs)" using False by (intro intact_lone) simp_all
      then show False using 3 by simp
    qed
    then have "intact (d # cs)" using 3 by (simp add: intact_plain_Cons)
    then have "intact ((d # cs) @ b)"
      using 3 False p by (simp add: plain_def)
    then show ?thesis using p by (simp add: intact_plain_Cons)
  qed
qed

lemma plain_hex_char: "d < 16 \<Longrightarrow> plain (hex_char d)"
proof -
  assume d: "d < 16"
  have "unat (hex_char d) = 48 + d \<or> unat (hex_char d) = 87 + d"
    unfolding hex_char_def using d unat_offset [of 48 d] unat_offset [of 87 d]
    by (cases "d < 10") simp_all
  then show ?thesis using d by (auto simp: plain_def is_high_def is_low_def)
qed

lemma plain_syntax [simp]: "plain backslash" "plain dquote" "plain newline"
  by (simp_all add: backslash_def dquote_def newline_def)

lemma plain_escape: "list_all plain (UnicodeEscape c)"
proof -
  have "unat c < 65536" by (rule unat_bound)
  then have "unat c div 4096 < 16" by simp
  then show ?thesis
    by (simp add: UnicodeEscape_def Let_def plain_hex_char)
qed

lemma plain_quote_char: "plain c \<Longrightarrow> list_all plain (quote_char c)"
  by (simp add: quote_char_def Let_def plain_escape)

lemma intact_quote_units: "intact (quote_units s @ t) = intact t"
proof (induction s rule: quote_units.induct)
  case 1
  show ?case by simp
next
  case (2 c)
  show ?case
    by (simp add: intact_plain_append plain_escape plain_quote_char plain_def)
next
  case (3 c d cs)
  show ?case
  proof (cases "is_high c \<and> is_low d")
    case True
    then show ?thesis using 3 by (simp add: intact_pair)
  next
    case False
    show ?thesis
    proof (cases "is_high c \<or> is_low c")
      case True
      have nf: "(is_high c \<and> is_low d) = False" using False by simp
      have t: "(is_high c \<or> is_low c) = True" using True by simp
      have q: "quote_units (c # d # cs) = UnicodeEscape c @ quote_units (d # cs)"
        by (simp only: quote_units.simps nf t if_False if_True)
      have "intact (quote_units (d # cs) @ t) = intact t"
        using False True by (rule "3.IH"(2))
      then show ?thesis
        unfolding q by (simp add: intact_plain_append plain_escape del: quote_units.simps)
    next
      case lit: False
      have nf: "(is_high c \<and> is_low d) = False" using False by simp
      have nl: "(is_high c \<or> is_low c) = False" using lit by simp
      have q: "quote_units (c # d # cs) = quote_char c @ quote_units (d # cs)"
        by (simp only: quote_units.simps nf nl if_False)
      have "intact (quote_units (d # cs) @ t) = intact t"
        using False lit by (rule "3.IH"(3))
      then show ?thesis
        unfolding q using lit
        by (simp add: intact_plain_append plain_quote_char plain_def del: quote_units.simps)
    qed
  qed
qed

lemma intact_QuoteJSONString: "intact (QuoteJSONString s)"
  by (simp add: QuoteJSONString_def intact_plain_Cons intact_quote_units)

lemma plain_digit_char: "d < 10 \<Longrightarrow> plain (digit_char d)"
  by (simp add: plain_def is_high_def is_low_def unat_digit_char)

lemma plain_nat_digits: "list_all plain (nat_digits n)"
proof (induction n rule: nat_digits.induct)
  case (1 n)
  show ?case
  proof (cases "n < 10")
    case True
    then show ?thesis by (subst nat_digits.simps) (simp add: plain_digit_char)
  next
    case False
    with 1 show ?thesis by (subst nat_digits.simps) (simp add: plain_digit_char)
  qed
qed

lemma intact_Number_toString: "intact (Number_toString i)"
  by (rule intact_plain) (simp add: Number_toString_def plain_nat_digits)

lemma plain_ws: "is_ws c \<Longrightarrow> plain c"
  by (auto simp: is_ws_def)

lemma intact_ws: "list_all is_ws w \<Longrightarrow> intact (w @ t) = intact t"
  by (rule intact_plain_append) (simp add: list_all_iff plain_ws)

lemma intact_join:
  "intact sep \<Longrightarrow> \<forall>x \<in> set xs. intact x \<Longrightarrow> intact (join sep xs)"
proof (induction xs)
  case Nil
  show ?case by simp
next
  case (Cons x xs)
  show ?case
  proof (cases "xs = []")
    case True
    then show ?thesis using Cons.prems by simp
  next
    case False
    then show ?thesis using Cons by (simp add: join_Cons intact_append)
  qed
qed

lemma intact_serialize:
  "wf_json v \<Longrightarrow> list_all is_ws ind \<Longrightarrow> intact (SerializeJSONProperty ind v)"
proof (induction v arbitrary: ind)
  case JNull
  show ?case by (simp add: intact_plain)
next
  case (JBool b)
  show ?case by (simp add: intact_plain)
next
  case (JNum i)
  show ?case by (simp add: intact_Number_toString)
next
  case (JFrac l)
  then show ?case by simp
next
  case (JStr s)
  show ?case by (simp add: intact_QuoteJSONString)
next
  case (JArr xs)
  have i: "list_all is_ws (ind @ gap)" using JArr.prems by simp
  have sep: "intact (cu CHR '','' # newline # (ind @ gap))"
    using intact_ws [OF i, of "[]"] by (simp add: intact_plain_Cons)
  have items: "intact (join (cu CHR '','' # newline # (ind @ gap)) (map (SerializeJSONProperty (ind @ gap)) xs))"
    using JArr i by (intro intact_join sep) simp
  have tail: "intact (newline # ind @ [cu CHR '']''])"
    using intact_ws [OF JArr.prems(2), of "[cu CHR '']'']"] by (simp add: intact_plain_Cons)
  show ?case
    using intact_append [OF items tail] intact_ws [OF i]
    by (simp add: intact_plain_Cons intact_plain)
next
  case (JObj kvs)
  have i: "list_all is_ws (ind @ gap)" using JObj.prems by simp
  have sep: "intact (cu CHR '','' # newline # (ind @ gap))"
    using intact_ws [OF i, of "[]"] by (simp add: intact_plain_Cons)
  have "\<forall>kv \<in> set kvs. intact (member_text (ind @ gap) kv)"
  proof
    fix kv assume kv: "kv \<in> set kvs"
    obtain k v where e: "kv = (k, v)" by (cases kv)
    have "intact (SerializeJSONProperty (ind @ gap) v)"
      using JObj kv e i by auto
    then have "intact (cu CHR '':'' # cu CHR '' '' # SerializeJSONProperty (ind @ gap) v)"
      by (simp add: intact_plain_Cons)
    then show "intact (member_text (ind @ gap) kv)"
      using intact_append [OF intact_QuoteJSONString, of _ k]
      by (simp add: e member_text_def)
  qed
  then have items: "intact (join (cu CHR '','' # newline # (ind @ gap)) (map (member_text (ind @ gap)) kvs))"
    by (intro intact_join sep) simp
  have tail: "intact (newline # ind @ [cu CHR ''}''])"
    using intact_ws [OF JObj.prems(2), of "[cu CHR ''}'']"] by (simp add: intact_plain_Cons)
  show ?case
  proof (cases "kvs = []")
    case True
    then show ?thesis by (simp add: intact_plain)
  next
    case False
    then show ?thesis
      using intact_append [OF items tail] intact_ws [OF i]
      by (simp add: serialize_obj intact_plain_Cons del: SerializeJSONProperty.simps)
  qed
qed

lemma utf8_text_stringify: "wf_json v \<Longrightarrow> utf8_text (JSON_stringify v) = JSON_stringify v"
  using intact_serialize [of v "[]"] by (simp add: intact_def JSON_stringify_def)

text \<open>
  For example, a string that ends in a lone leading surrogate: the surrogate is written as
  an escape and read back from it, where the file alone would have replaced it.
\<close>

lemma lone_surrogate_escaped:
  "QuoteJSONString [0x65E5, 0xD83D, 0xDE00, 0xD800]
     = dquote # [0x65E5, 0xD83D, 0xDE00] @ backslash # js ''ud800'' @ [dquote]
   \<and> utf8_text [0x65E5, 0xD83D, 0xDE00, 0xD800] = [0x65E5, 0xD83D, 0xDE00, 0xFFFD]
   \<and> parse_chars (backslash # js ''ud800'' @ [dquote]) = Some ([0xD800], [])
   \<and> parse_chars (backslash # js ''u2014'' @ [dquote]) = Some ([0x2014], [])"
  by (simp add: QuoteJSONString_def UnicodeEscape_def quote_char_def is_high_def is_low_def
      hex_char_def hex_val_def backslash_def dquote_def cu_def)

section \<open>Persistence and startup\<close>

lemma broadcasts_index: "indexedUrls (fold (\<lambda>u t. broadcast t u) us s) = indexedUrls s"
  by (induction us arbitrary: s) (simp_all add: broadcast_index)

lemma broadcasts_frame:
  "visited (fold (\<lambda>u t. broadcast t u) us s) = visited s"
  "pending (fold (\<lambda>u t. broadcast t u) us s) = pending s"
  "console (fold (\<lambda>u t. broadcast t u) us s) = console s"
  "dataJson (fold (\<lambda>u t. broadcast t u) us s) = dataJson s"
  by (induction us arbitrary: s) (simp_all add: broadcast_def Let_def)

lemma startup_parsed:
  "JSON_parse rawData = Some (JObj kvs) \<Longrightarrow> indexedUrls (startup (Some rawData)) = JObj kvs"
  by (simp add: startup_def Let_def Object_keys_json_def broadcasts_index)

lemma typed_index: "map_option indexedUrls (typed s) = as_index (indexedUrls s)"
  by (simp add: typed_def option.map_comp comp_def option.map_ident)

text \<open>
  Claim C3. For an index with unique keys (as the keys of a JavaScript object are), whose
  titles, links and keys are any strings of 16-bit code units, the text that reaches
  \<open>data.json\<close> through \<open>save\<close> is the text of the index as \<open>JSON.stringify\<close> produced it,
  and the startup load of that document yields the index again: \<open>indexedUrls\<close> is the same
  value, so it has the same URL keys in the same order and under each URL the same title,
  the same links in the same order and the same rank.
\<close>

theorem persistence_round_trip:
  assumes "distinct (Object_keys (indexedUrls s))"
  shows "dataJson (save True s) = Some (JSON_stringify (index_json (indexedUrls s)))
    \<and> indexedUrls (startup (dataJson (save True s))) = index_json (indexedUrls s)
    \<and> map_option indexedUrls (typed (startup (dataJson (save True s)))) = Some (indexedUrls s)"
proof -
  let ?doc = "JSON_stringify (index_json (indexedUrls s))"
  have w: "wf_json (index_json (indexedUrls s))"
    using assms by (rule wf_index_json)
  have d: "dataJson (save True s) = Some ?doc"
    using w by (simp add: save_def utf8_text_stringify)
  have "JSON_parse ?doc = Some (index_json (indexedUrls s))"
    using w by (rule JSON_parse_stringify)
  then have l: "indexedUrls (startup (Some ?doc)) = index_json (indexedUrls s)"
    unfolding index_json_def by (rule startup_parsed)
  show ?thesis
    unfolding d using l by (simp add: typed_index as_index_json)
qed

theorem persistence_round_trip_witness:
  "distinct (Object_keys (indexedUrls unicode_titled))
   \<and> map_option indexedUrls (typed (startup (dataJson (save True unicode_titled))))
     = Some [(js ''http://a'',
              \<lparr>title = js ''Caf'' @ [0xE9, 0x20, 0x2014, 0x20, 0x2615, 0x20, 0x65E5, 0x672C, 0xD83D, 0xDE00, 0xD800],
               links = [js ''http://a''], rank = 10\<rparr>)]"
proof -
  have d: "distinct (Object_keys (indexedUrls unicode_titled))"
    by (simp add: unicode_titled_def fresh_def Object_keys_def)
  have r: "map_option indexedUrls (typed (startup (dataJson (save True unicode_titled))))
      = Some (indexedUrls unicode_titled)"
    using persistence_round_trip [OF d] by blast
  have i: "indexedUrls unicode_titled
      = [(js ''http://a'',
          \<lparr>title = js ''Caf'' @ [0xE9, 0x20, 0x2014, 0x20, 0x2615, 0x20, 0x65E5, 0x672C, 0xD83D, 0xDE00, 0xD800],
           links = [js ''http://a''], rank = 10\<rparr>)]"
    by (simp add: unicode_titled_def fresh_def)
  show ?thesis
    using d r i by simp
qed

text \<open>
  Claim C9. When \<open>data.json\<close> exists and \<open>JSON.parse\<close> throws, the error is logged and
  \<open>indexedUrls\<close> is the empty object; when the file does not exist, the warning is logged
  and \<open>indexedUrls\<close> is the empty object it was initialised with. After any startup a call
  of \<open>crawl\<close> with a non-zero depth marks the URL visited and issues its request.
\<close>

theorem startup_recovers:
  "(JSON_parse rawData = None \<longrightarrow>
      indexedUrls (startup (Some rawData)) = JObj []
      \<and> console (startup (Some rawData)) = [LogLoadError]
      \<and> typed (startup (Some rawData)) = Some (fresh\<lparr>dataJson := Some rawData, console := [LogLoadError]\<rparr>))
   \<and> indexedUrls (startup None) = JObj []
   \<and> console (startup None) = [LogNotFound]
   \<and> typed (startup None) = Some (fresh\<lparr>console := [LogNotFound]\<rparr>)
   \<and> (\<forall>t url depth. typed (startup file) = Some t \<and> depth \<noteq> 0 \<longrightarrow>
         pending (crawl t url depth) = [(url, depth)] \<and> url \<in> visited (crawl t url depth))"
proof -
  have e: "as_index (JObj []) = Some []" by (simp add: as_index_def)
  have a: "JSON_parse rawData = None \<longrightarrow>
      indexedUrls (startup (Some rawData)) = JObj []
      \<and> console (startup (Some rawData)) = [LogLoadError]
      \<and> typed (startup (Some rawData)) = Some (fresh\<lparr>dataJson := Some rawData, console := [LogLoadError]\<rparr>)"
    by (simp add: startup_def initial_def typed_def e fresh_def)
  have b: "indexedUrls (startup None) = JObj [] \<and> console (startup None) = [LogNotFound]
      \<and> typed (startup None) = Some (fresh\<lparr>console := [LogNotFound]\<rparr>)"
    by (simp add: startup_def initial_def typed_def e fresh_def)
  have v: "visited (startup file) = {} \<and> pending (startup file) = []"
    by (simp add: startup_def initial_def Let_def broadcasts_frame split: option.splits)
  have c: "\<forall>t url depth. typed (startup file) = Some t \<and> depth \<noteq> 0 \<longrightarrow>
         pending (crawl t url depth) = [(url, depth)] \<and> url \<in> visited (crawl t url depth)"
    using v by (auto simp: typed_def crawl_def)
  show ?thesis using a b c by simp
qed

lemma parse_garbage: "JSON_parse (js ''{oops'') = None"
  by (simp add: JSON_parse_def skip_ws_def is_ws_def dquote_def)

theorem startup_recovers_witness:
  "JSON_parse (js ''{oops'') = None
   \<and> indexedUrls (startup (Some (js ''{oops''))) = JObj []
   \<and> console (startup (Some (js ''{oops''))) = [LogLoadError]
   \<and> pending (crawl (fresh\<lparr>dataJson := Some (js ''{oops''), console := [LogLoadError]\<rparr>) (js ''http://seed'') 5)
       = [(js ''http://seed'', 5)]"
proof -
  have p: "JSON_parse (js ''{oops'') = None" by (rule parse_garbage)
  have t: "typed (startup (Some (js ''{oops''))) = Some (fresh\<lparr>dataJson := Some (js ''{oops''), console := [LogLoadError]\<rparr>)"
    using startup_recovers [of "js ''{oops''"] p by simp
  show ?thesis
    using startup_recovers [of "js ''{oops''" "Some (js ''{oops'')"] p t by simp
qed

section \<open>Link filtering\<close>

lemma extract_links_fold:
  "fold (\<lambda>link ls. case link of
                        Some href \<Rightarrow> if href \<noteq> [] \<and> prefix (js ''http'') href then ls @ [href] else ls
                      | None \<Rightarrow> ls) as acc
     = acc @ map the (filter kept as)"
  by (induction as arbitrary: acc) (auto simp: kept_def split: option.splits)

lemma extract_links_filter: "extract_links as = map the (filter kept as)"
  by (simp add: extract_links_def extract_links_fold)

lemma extract_links_http: "list_all (prefix (js ''http'')) (extract_links as)"
  by (auto simp: extract_links_filter list_all_iff kept_def split: option.splits)

lemma keys_set_prop: "set (map fst (set_prop ob k v)) = insert k (set (map fst ob))"
proof (induction ob)
  case Nil
  show ?case by simp
next
  case (Cons a ob)
  obtain k' v' where a: "a = (k', v')" by (cases a)
  show ?case
  proof (cases "k' = k")
    case True
    then show ?thesis by (simp add: a)
  next
    case False
    have "set (map fst (set_prop (a # ob) k v)) = insert k' (set (map fst (set_prop ob k v)))"
      using False by (simp add: a)
    also have "\<dots> = insert k' (insert k (set (map fst ob)))"
      by (simp only: Cons.IH)
    also have "\<dots> = insert k (set (map fst (a # ob)))"
      by (auto simp: a)
    finally show ?thesis .
  qed
qed

lemma distinct_set_prop:
  "distinct (Object_keys ob) \<Longrightarrow> distinct (Object_keys (set_prop ob k v))"
  unfolding Object_keys_def
proof (induction ob)
  case Nil
  then show ?case by simp
next
  case (Cons a ob)
  then show ?case using keys_set_prop [of ob k v] by (cases a) auto
qed

lemma keys_set_links: "Object_keys (set_links idx url ls) = Object_keys idx"
  by (induction idx) (auto simp: Object_keys_def set_links_def)

lemma keys_recalculate: "Object_keys (recalculate idx) = Object_keys idx"
  by (simp add: recalculate_eq Object_keys_def comp_def)

lemma links_set_prop:
  "list_all (\<lambda>kv. http_links (snd kv)) ob \<Longrightarrow> http_links v \<Longrightarrow>
   list_all (\<lambda>kv. http_links (snd kv)) (set_prop ob k v)"
  by (induction ob) auto

lemma links_set_links:
  "list_all (\<lambda>kv. http_links (snd kv)) idx \<Longrightarrow> list_all (prefix (js ''http'')) ls \<Longrightarrow>
   list_all (\<lambda>kv. http_links (snd kv)) (set_links idx url ls)"
  by (induction idx) (auto simp: set_links_def http_links_def)

lemma links_recalculate:
  "list_all (\<lambda>kv. http_links (snd kv)) idx \<Longrightarrow>
   list_all (\<lambda>kv. http_links (snd kv)) (recalculate idx)"
  by (simp add: recalculate_eq list_all_iff http_links_def)

lemma get_prop_links:
  "list_all (\<lambda>kv. http_links (snd kv)) idx \<Longrightarrow> get_prop idx u = Some p \<Longrightarrow> http_links p"
proof -
  assume a: "list_all (\<lambda>kv. http_links (snd kv)) idx" and "get_prop idx u = Some p"
  then have "(u, p) \<in> set idx" by (simp add: get_prop_def map_of_SomeD)
  with a show ?thesis by (auto simp: list_all_iff)
qed

lemma message_of_index:
  "list_all (\<lambda>kv. http_links (snd kv)) idx \<Longrightarrow>
   message_ok \<lparr>msg_url = u, msg_data = get_prop idx u\<rparr>"
  by (auto simp: message_ok_def get_prop_links split: option.splits)

lemma document_of_index:
  "distinct (Object_keys idx) \<Longrightarrow> list_all (\<lambda>kv. http_links (snd kv)) idx \<Longrightarrow>
   document_ok (JSON_stringify (index_json idx))"
  by (simp add: document_ok_def JSON_parse_stringify wf_index_json as_index_json)

lemma invariant_frame:
  "indexedUrls t = indexedUrls s \<Longrightarrow> clients t = clients s \<Longrightarrow>
   links_invariant t = links_invariant s"
  by (simp add: links_invariant_def)

lemma written_frame: "dataJson t = dataJson s \<Longrightarrow> written b t = written b s"
  by (simp add: written_def)

lemma crawl_frame [simp]:
  "clients (crawl s url d) = clients s" "dataJson (crawl s url d) = dataJson s"
  by (simp_all add: crawl_def)

lemma crawls_frame [simp]:
  "clients (fold (\<lambda>link t. crawl t link d) ls s) = clients s"
  "dataJson (fold (\<lambda>link t. crawl t link d) ls s) = dataJson s"
  by (induction ls arbitrary: s) simp_all

lemma resume_invariant:
  assumes "links_invariant s"
  shows "links_invariant (crawl_resume w ok s url d)
    \<and> (written b s \<longrightarrow> written b (crawl_resume w ok s url d))"
proof (cases "w url")
  case (Inl msg)
  then show ?thesis using assms
    by (simp add: resume_failure links_invariant_def written_def)
next
  case (Inr doc)
  let ?idx = "set_links (set_prop (indexedUrls s) url
                 \<lparr>title = (if doc_title doc = [] then js ''No title'' else doc_title doc),
                  links = [], rank = 0\<rparr>) url (extract_links (anchors doc))"
  have d: "distinct (Object_keys ?idx)"
    using assms by (simp add: keys_set_links distinct_set_prop links_invariant_def)
  have l: "list_all (\<lambda>kv. http_links (snd kv)) ?idx"
    using assms
    by (intro links_set_links links_set_prop extract_links_http)
       (simp_all add: links_invariant_def http_links_def)
  have i: "indexedUrls (crawl_resume w ok s url d) = ?idx"
    and c: "clients (crawl_resume w ok s url d) = clients s"
    using Inr by (simp_all add: resume_success)
  have j: "dataJson (crawl_resume w ok s url d)
      = (if ok then Some (JSON_stringify (index_json ?idx)) else dataJson s)"
    using Inr d by (simp add: resume_success save_def utf8_text_stringify wf_index_json)
  have inv: "links_invariant (crawl_resume w ok s url d)"
    using assms d l by (simp add: links_invariant_def i c)
  have wr: "written b s \<longrightarrow> written b (crawl_resume w ok s url d)"
    using document_of_index [OF d l] by (simp add: written_def j)
  show ?thesis using inv wr by simp
qed

lemma settle_invariant:
  "links_invariant s \<Longrightarrow>
   links_invariant (settle w ok i s) \<and> (written b s \<longrightarrow> written b (settle w ok i s))"
proof (cases "i < length (pending s)")
  case False
  assume "links_invariant s"
  then show ?thesis using False by (simp add: settle_def)
next
  case True
  assume a: "links_invariant s"
  obtain url d where p: "pending s ! i = (url, d)" by (cases "pending s ! i")
  let ?s = "s\<lparr>pending := take i (pending s) @ drop (Suc i) (pending s)\<rparr>"
  have "links_invariant ?s" using a by (simp add: links_invariant_def)
  from resume_invariant [OF this, of w ok url d b]
  show ?thesis by (simp add: settle_at [OF True p] written_def)
qed

lemma rank_invariant:
  "links_invariant s \<Longrightarrow> links_invariant (recalculateRanks s)"
  by (simp add: links_invariant_def recalculateRanks_def keys_recalculate links_recalculate)

lemma drain_invariant:
  "links_invariant s \<Longrightarrow> links_invariant (drain_tick s)"
proof -
  assume a: "links_invariant s"
  then have m: "message_ok \<lparr>msg_url = u, msg_data = get_prop (indexedUrls s) u\<rparr>" for u
    by (simp add: links_invariant_def message_of_index)
  show ?thesis
    using a m
    by (cases "broadcastQueue s")
       (auto simp: links_invariant_def drain_tick_index drain_tick_clients list_all_iff deliver_sent)
qed

lemma connection_invariant:
  "links_invariant s \<Longrightarrow> links_invariant (connection s rs)"
proof -
  assume a: "links_invariant s"
  then have m: "message_ok \<lparr>msg_url = u, msg_data = get_prop (indexedUrls s) u\<rparr>" for u
    by (simp add: links_invariant_def message_of_index)
  have "list_all message_ok (sent (replay (indexedUrls s) \<lparr>readyState = rs, sent = []\<rparr>))"
  proof (cases "rs = OPEN")
    case True
    then show ?thesis using m by (simp add: replay_def replay_fold list_all_iff)
  next
    case False
    then show ?thesis by (simp add: replay_not_open)
  qed
  then show ?thesis using a by (simp add: links_invariant_def connection_def)
qed

lemma socket_state_invariant:
  "links_invariant s \<Longrightarrow> links_invariant (socket_state i rs s)"
proof -
  assume a: "links_invariant s"
  show ?thesis
  proof (cases "i < length (clients s)")
    case False
    then show ?thesis using a by (simp add: socket_state_def)
  next
    case True
    have "set ((clients s)[i := (clients s ! i)\<lparr>readyState := rs\<rparr>])
        \<subseteq> insert ((clients s ! i)\<lparr>readyState := rs\<rparr>) (set (clients s))"
      by (rule set_update_subset_insert)
    moreover have "list_all message_ok (sent ((clients s ! i)\<lparr>readyState := rs\<rparr>))"
      using a nth_mem [OF True] by (simp add: links_invariant_def list_all_iff)
    ultimately show ?thesis using a True
      by (auto simp: links_invariant_def socket_state_def list_all_iff)
  qed
qed

lemma on_close_invariant:
  "links_invariant s \<Longrightarrow> links_invariant (on_close i s)"
proof -
  assume a: "links_invariant s"
  have "set (take i (clients s) @ drop (Suc i) (clients s)) \<subseteq> set (clients s)"
    using set_take_subset [of i "clients s"] set_drop_subset [of "Suc i" "clients s"] by auto
  then show ?thesis using a
    by (auto simp: links_invariant_def on_close_def list_all_iff)
qed

lemma step_invariant:
  "links_invariant s \<Longrightarrow>
   links_invariant (step w e s) \<and> (written b s \<longrightarrow> written b (step w e s))"
proof (cases e)
  case (CrawlCall url depth)
  assume "links_invariant s"
  then show ?thesis by (simp add: CrawlCall step_def links_invariant_def written_def)
next
  case (Response i ok)
  assume "links_invariant s"
  then show ?thesis using settle_invariant [of s w ok i b] by (simp add: Response step_def)
next
  case (Timer t)
  assume a: "links_invariant s"
  show ?thesis
  proof (cases t)
    case RankTimer
    then show ?thesis using rank_invariant [OF a]
      by (simp add: Timer step_def fire_def written_def recalculateRanks_def)
  next
    case DrainTimer
    have "dataJson (drain_tick s) = dataJson s" by (simp add: drain_tick_def split: list.splits)
    then show ?thesis using drain_invariant [OF a] a
      by (simp add: Timer DrainTimer step_def fire_def written_def)
  qed
next
  case (Connect rs)
  assume "links_invariant s"
  then show ?thesis using connection_invariant [of s rs]
    by (simp add: Connect step_def written_def connection_def)
next
  case (SocketState i rs)
  assume "links_invariant s"
  then show ?thesis using socket_state_invariant [of s i rs]
    by (simp add: SocketState step_def written_def socket_state_def)
next
  case (SocketClose i)
  assume "links_invariant s"
  then show ?thesis using on_close_invariant [of s i]
    by (simp add: SocketClose step_def written_def on_close_def)
qed

lemma run_invariant:
  "links_invariant s \<Longrightarrow> written b s \<Longrightarrow>
   links_invariant (run w evs s) \<and> written b (run w evs s)"
  unfolding run_def
proof (induction evs arbitrary: s)
  case Nil
  then show ?case by simp
next
  case (Cons e evs)
  have "links_invariant (step w e s) \<and> written b (step w e s)"
    using step_invariant [OF Cons.prems(1), of w e b] Cons.prems(2) by simp
  then show ?case using Cons.IH by simp
qed

lemma fresh_invariant: "links_invariant fresh"
  by (simp add: links_invariant_def fresh_def Object_keys_def)

text \<open>
  Claim C10. The record \<open>crawl\<close> stores for a fetched document has as links exactly the
  \<open>href\<close> values of the anchors that pass the test, in document order and with
  repetitions; anchors without \<open>href\<close> and those whose \<open>href\<close> does not start with \<open>http\<close>
  are left out, so every link starts with \<open>http\<close>. From any state in which every record of
  the index and of the messages already sent has only such links, every sequence of
  events leads to a state with the same property, and \<open>data.json\<close> is then either
  untouched or a document whose records have only such links. The state of a process
  started without \<open>data.json\<close> is such a state.
\<close>

theorem crawl_links_filtered:
  "links (new_record doc) = map the (filter kept (anchors doc))
   \<and> http_links (new_record doc)
   \<and> (w url = Inr doc \<longrightarrow>
        get_prop (indexedUrls (crawl_resume w ok s url depth)) url = Some (new_record doc))
   \<and> (links_invariant t \<longrightarrow>
        links_invariant (run w evs t) \<and> written (dataJson t) (run w evs t))
   \<and> links_invariant fresh"
proof -
  have a: "links (new_record doc) = map the (filter kept (anchors doc))"
    by (simp add: new_record_def extract_links_filter)
  have b: "http_links (new_record doc)"
    using extract_links_http [of "anchors doc"] by (simp add: http_links_def new_record_def)
  have c: "w url = Inr doc \<longrightarrow>
        get_prop (indexedUrls (crawl_resume w ok s url depth)) url = Some (new_record doc)"
    by (simp add: resume_index)
  have d: "links_invariant t \<longrightarrow>
        links_invariant (run w evs t) \<and> written (dataJson t) (run w evs t)"
  proof
    assume i: "links_invariant t"
    have "written (dataJson t) t" by (simp add: written_def)
    with i show "links_invariant (run w evs t) \<and> written (dataJson t) (run w evs t)"
      by (rule run_invariant)
  qed
  show ?thesis using a b c d fresh_invariant by simp
qed

theorem crawl_links_filtered_witness:
  "example_web (js ''http://good'')
     = Inr \<lparr>doc_title = [], anchors = [Some (js ''/about''), None, Some (js ''http://seed''), Some (js ''http://seed'')]\<rparr>
   \<and> links (new_record \<lparr>doc_title = [], anchors = [Some (js ''/about''), None, Some (js ''http://seed''), Some (js ''http://seed'')]\<rparr>)
     = [js ''http://seed'', js ''http://seed'']
   \<and> get_prop (indexedUrls (crawl_resume example_web True fresh (js ''http://good'') 1)) (js ''http://good'')
     = Some \<lparr>title = js ''No title'', links = [js ''http://seed'', js ''http://seed''], rank = 0\<rparr>
   \<and> links_invariant fresh
   \<and> links_invariant (run example_web
        [CrawlCall (js ''http://seed'') 2, Response 0 True, Connect OPEN, Timer DrainTimer,
         Response 0 True, Timer RankTimer, Response 0 False] fresh)"
proof -
  let ?doc = "\<lparr>doc_title = [], anchors = [Some (js ''/about''), None, Some (js ''http://seed''), Some (js ''http://seed'')]\<rparr>"
  let ?evs = "[CrawlCall (js ''http://seed'') 2, Response 0 True, Connect OPEN, Timer DrainTimer,
         Response 0 True, Timer RankTimer, Response 0 False]"
  note th = crawl_links_filtered [of ?doc example_web "js ''http://good''" True fresh 1 fresh ?evs]
  have w: "example_web (js ''http://good'') = Inr ?doc" by (simp add: example_web_def)
  have l: "links (new_record ?doc) = [js ''http://seed'', js ''http://seed'']"
    using th by (simp add: kept_def)
  have r: "new_record ?doc = \<lparr>title = js ''No title'', links = [js ''http://seed'', js ''http://seed''], rank = 0\<rparr>"
    using l by (simp add: new_record_def)
  have g: "get_prop (indexedUrls (crawl_resume example_web True fresh (js ''http://good'') 1)) (js ''http://good'')
     = Some (new_record ?doc)"
    using th w by blast
  have f: "links_invariant fresh" using th by blast
  have i: "links_invariant (run example_web ?evs fresh)" using th f by blast
  show ?thesis using w l g f i unfolding r by simp
qed

section \<open>The drain timer exists whenever something is queued\<close>

lemma crawl_timer [simp]:
  "isBroadcasting (crawl s url d) = isBroadcasting s" "intervals (crawl s url d) = intervals s"
  "broadcastQueue (crawl s url d) = broadcastQueue s"
  by (simp_all add: crawl_def)

lemma crawls_timer [simp]:
  "isBroadcasting (fold (\<lambda>link t. crawl t link d) ls s) = isBroadcasting s"
  "intervals (fold (\<lambda>link t. crawl t link d) ls s) = intervals s"
  "broadcastQueue (fold (\<lambda>link t. crawl t link d) ls s) = broadcastQueue s"
  by (induction ls arbitrary: s) simp_all

lemma broadcast_installed: "timer_installed s \<Longrightarrow> timer_installed (broadcast s url)"
  by (simp add: timer_installed_def broadcast_def Let_def)

lemma resume_installed: "timer_installed s \<Longrightarrow> timer_installed (crawl_resume w ok s url d)"
proof (cases "w url")
  case (Inl msg)
  assume "timer_installed s"
  then show ?thesis using Inl by (simp add: resume_failure timer_installed_def)
next
  case (Inr doc)
  assume a: "timer_installed s"
  let ?s = "save ok (s\<lparr>indexedUrls :=
                        set_links (set_prop (indexedUrls s) url
                           \<lparr>title = (if doc_title doc = [] then js ''No title'' else doc_title doc),
                            links = [], rank = 0\<rparr>) url (extract_links (anchors doc)),
                      console := console s @ [LogIndexed url (length (extract_links (anchors doc)))]\<rparr>)"
  have "timer_installed ?s" using a by (simp add: timer_installed_def save_def)
  then have "timer_installed (broadcast ?s url)" by (rule broadcast_installed)
  then show ?thesis using Inr by (simp add: resume_success timer_installed_def)
qed

lemma step_installed: "timer_installed s \<Longrightarrow> timer_installed (step w e s)"
proof (cases e)
  case (CrawlCall url depth)
  assume "timer_installed s"
  then show ?thesis by (simp add: CrawlCall step_def timer_installed_def)
next
  case (Response i ok)
  assume a: "timer_installed s"
  show ?thesis
  proof (cases "i < length (pending s)")
    case False
    then show ?thesis using a by (simp add: Response step_def settle_def)
  next
    case True
    obtain url d where p: "pending s ! i = (url, d)" by (cases "pending s ! i")
    have "timer_installed (s\<lparr>pending := take i (pending s) @ drop (Suc i) (pending s)\<rparr>)"
      using a by (simp add: timer_installed_def)
    then show ?thesis
      by (simp add: Response step_def settle_at [OF True p] resume_installed)
  qed
next
  case (Timer t)
  assume "timer_installed s"
  then show ?thesis
    by (cases t; cases "broadcastQueue s")
       (auto simp: Timer step_def fire_def timer_installed_def recalculateRanks_def drain_tick_def)
next
  case (Connect rs)
  assume "timer_installed s"
  then show ?thesis by (simp add: Connect step_def connection_def timer_installed_def)
next
  case (SocketState i rs)
  assume "timer_installed s"
  then show ?thesis by (simp add: SocketState step_def socket_state_def timer_installed_def)
next
  case (SocketClose i)
  assume "timer_installed s"
  then show ?thesis by (simp add: SocketClose step_def on_close_def timer_installed_def)
qed

lemma run_installed: "timer_installed s \<Longrightarrow> timer_installed (run w evs s)"
  unfolding run_def by (induction evs arbitrary: s) (simp_all add: step_installed)

lemma fresh_installed: "timer_installed fresh"
  by (simp add: timer_installed_def fresh_def)

text \<open>
  The interval is never cleared: once the queue has run empty, the next \<open>broadcast\<close>
  installs a second interval beside the first.
\<close>

lemma second_interval:
  "intervals (broadcast (drain_tick (drain_tick (broadcast fresh (js ''http://a'')))) (js ''http://b'')) = 2"
  by (simp add: broadcast_def drain_tick_def fresh_def Let_def)

section \<open>The rate at which the queue is drained\<close>

lemma save_timer [simp]:
  "broadcastQueue (save ok s) = broadcastQueue s" "isBroadcasting (save ok s) = isBroadcasting s"
  "intervals (save ok s) = intervals s"
  by (simp_all add: save_def)

lemma broadcast_timer_fields:
  "broadcastQueue (broadcast s url) = broadcastQueue s @ [url]"
  "isBroadcasting (broadcast s url) = True"
  "intervals (broadcast s url) = (if isBroadcasting s then intervals s else Suc (intervals s))"
  by (simp_all add: broadcast_def Let_def)

lemma drain_tick_frame:
  "visited (drain_tick s) = visited s" "pending (drain_tick s) = pending s"
  "isBroadcasting (drain_tick s) = (broadcastQueue s \<noteq> [] \<and> isBroadcasting s)"
  by (simp_all add: drain_tick_def split: list.splits)

lemma connection_frame:
  "visited (connection s rs) = visited s" "pending (connection s rs) = pending s"
  "broadcastQueue (connection s rs) = broadcastQueue s"
  "isBroadcasting (connection s rs) = isBroadcasting s" "intervals (connection s rs) = intervals s"
  "indexedUrls (connection s rs) = indexedUrls s"
  by (simp_all add: connection_def)

lemma drain_tick_view:
  "map view (clients (drain_tick s)) = map (receive (take (Suc 0) (broadcastQueue s))) (map view (clients s))"
  by (cases "broadcastQueue s") (simp_all add: drain_tick_clients comp_def view_deliver receive_Nil)

text \<open>
  The state after \<open>burst\<close>, event by event: the visited set, the pending requests, the
  queue, the flag, the number of intervals and what each client has been sent.
\<close>

lemma burst_state:
  "intervals (run wide_web burst fresh) = 2
   \<and> broadcastQueue (run wide_web burst fresh) = [js ''http://a'', js ''http://b'', js ''http://c'']
   \<and> map view (clients (run wide_web burst fresh)) = [(OPEN, [js ''http://seed''])]"
proof -
  let ?w = wide_web
  let ?s1 = "connection fresh OPEN"
  let ?s2 = "crawl ?s1 (js ''http://seed'') 2"
  let ?s3 = "settle ?w True 0 ?s2"
  let ?s4 = "drain_tick ?s3"
  let ?s5 = "drain_tick ?s4"
  let ?s6 = "settle ?w True 0 ?s5"
  let ?s7 = "settle ?w True 0 ?s6"
  let ?s8 = "settle ?w True 0 ?s7"
  have seed: "?w (js ''http://seed'')
      = Inr \<lparr>doc_title = js ''Seed'', anchors = [Some (js ''http://a''), Some (js ''http://b''), Some (js ''http://c'')]\<rparr>"
    and leaf: "?w (js ''http://a'') = Inr \<lparr>doc_title = js ''Leaf'', anchors = []\<rparr>"
      "?w (js ''http://b'') = Inr \<lparr>doc_title = js ''Leaf'', anchors = []\<rparr>"
      "?w (js ''http://c'') = Inr \<lparr>doc_title = js ''Leaf'', anchors = []\<rparr>"
    by (simp_all add: wide_web_def js_literal del: js_Cons js_Nil)
  have ls: "extract_links [Some (js ''http://a''), Some (js ''http://b''), Some (js ''http://c'')]
      = [js ''http://a'', js ''http://b'', js ''http://c'']" "extract_links [] = []"
    by (simp_all add: extract_links_def)
  have f1: "visited ?s1 = {}" "pending ?s1 = []" "broadcastQueue ?s1 = []" "\<not> isBroadcasting ?s1"
    "intervals ?s1 = 0" "map view (clients ?s1) = [(OPEN, [])]"
    by (simp_all add: connection_def fresh_def replay_def Object_keys_def view_def sent_urls_def)
  have f2: "visited ?s2 = {js ''http://seed''}" "pending ?s2 = [(js ''http://seed'', 2)]"
    "broadcastQueue ?s2 = []" "\<not> isBroadcasting ?s2" "intervals ?s2 = 0"
    "map view (clients ?s2) = [(OPEN, [])]"
    using f1 by (simp_all add: visited_after_crawl crawl_pending del: js_Cons js_Nil)
  have e3: "?s3 = crawl_resume ?w True (?s2\<lparr>pending := []\<rparr>) (js ''http://seed'') 2"
    using f2(2) by (simp add: settle_at del: js_Cons js_Nil)
  have f3: "visited ?s3 = {js ''http://seed'', js ''http://a'', js ''http://b'', js ''http://c''}"
    "pending ?s3 = [(js ''http://a'', 1), (js ''http://b'', 1), (js ''http://c'', 1)]"
    "broadcastQueue ?s3 = [js ''http://seed'']" "isBroadcasting ?s3" "intervals ?s3 = 1"
    "map view (clients ?s3) = [(OPEN, [])]"
    unfolding e3 using f2
    by (auto simp add: resume_success [where w = ?w, OF seed] ls visited_after_crawl crawl_pending
        broadcast_timer_fields js_literal simp del: js_Cons js_Nil)
  have f4: "visited ?s4 = visited ?s3" "pending ?s4 = pending ?s3" "broadcastQueue ?s4 = []"
    "isBroadcasting ?s4" "intervals ?s4 = 1" "map view (clients ?s4) = [(OPEN, [js ''http://seed''])]"
    using f3 by (simp_all add: drain_tick_frame drain_tick_queue drain_tick_intervals drain_tick_view receive_def
        del: js_Cons js_Nil)
  have f5: "visited ?s5 = visited ?s3" "pending ?s5 = pending ?s3" "broadcastQueue ?s5 = []"
    "\<not> isBroadcasting ?s5" "intervals ?s5 = 1" "map view (clients ?s5) = [(OPEN, [js ''http://seed''])]"
    using f4 by (simp_all add: drain_tick_frame drain_tick_queue drain_tick_intervals drain_tick_view receive_def
        del: js_Cons js_Nil)
  have e6: "?s6 = crawl_resume ?w True (?s5\<lparr>pending := [(js ''http://b'', 1), (js ''http://c'', 1)]\<rparr>) (js ''http://a'') 1"
    using f5(2) f3(2) by (simp add: settle_at del: js_Cons js_Nil)
  have f6: "pending ?s6 = [(js ''http://b'', 1), (js ''http://c'', 1)]"
    "broadcastQueue ?s6 = [js ''http://a'']" "isBroadcasting ?s6" "intervals ?s6 = 2"
    "map view (clients ?s6) = [(OPEN, [js ''http://seed''])]"
    unfolding e6 using f5
    by (simp_all add: resume_success [where w = ?w, OF leaf(1)] ls broadcast_timer_fields js_literal
        del: js_Cons js_Nil)
  have e7: "?s7 = crawl_resume ?w True (?s6\<lparr>pending := [(js ''http://c'', 1)]\<rparr>) (js ''http://b'') 1"
    using f6(1) by (simp add: settle_at del: js_Cons js_Nil)
  have f7: "pending ?s7 = [(js ''http://c'', 1)]"
    "broadcastQueue ?s7 = [js ''http://a'', js ''http://b'']" "isBroadcasting ?s7" "intervals ?s7 = 2"
    "map view (clients ?s7) = [(OPEN, [js ''http://seed''])]"
    unfolding e7 using f6
    by (simp_all add: resume_success [where w = ?w, OF leaf(2)] ls broadcast_timer_fields js_literal
        del: js_Cons js_Nil)
  have e8: "?s8 = crawl_resume ?w True (?s7\<lparr>pending := []\<rparr>) (js ''http://c'') 1"
    using f7(1) by (simp add: settle_at del: js_Cons js_Nil)
  have f8: "broadcastQueue ?s8 = [js ''http://a'', js ''http://b'', js ''http://c'']" "intervals ?s8 = 2"
    "map view (clients ?s8) = [(OPEN, [js ''http://seed''])]"
    unfolding e8 using f7
    by (simp_all add: resume_success [where w = ?w, OF leaf(3)] ls broadcast_timer_fields js_literal
        del: js_Cons js_Nil)
  have iv: "0 < intervals ?s3" "0 < intervals ?s4" using f3 f4 by simp_all
  have r: "run wide_web burst fresh = ?s8"
    using iv by (simp add: run_def burst_def step_def fire_def del: js_Cons js_Nil)
  show ?thesis unfolding r using f8 by (simp del: js_Cons js_Nil)
qed

text \<open>
  Claim C8. The drain rate is not capped at one event per period. The interval that
  \<open>broadcast\<close> installs is never cleared, and \<open>isBroadcasting\<close> is reset by the first
  callback that finds the queue empty, so the next \<open>broadcast\<close> installs another interval.
  After \<open>burst\<close> two intervals exist and three URLs are queued; in the following period
  of 100 ms two of them leave the queue and the viewer is sent two messages.
\<close>

theorem drain_rate_not_capped:
  "intervals (run wide_web burst fresh) = 2
   \<and> broadcastQueue (run wide_web burst fresh) = [js ''http://a'', js ''http://b'', js ''http://c'']
   \<and> broadcastQueue (drain_period (run wide_web burst fresh)) = [js ''http://c'']
   \<and> map (\<lambda>c. map msg_url (sent c)) (clients (run wide_web burst fresh)) = [[js ''http://seed'']]
   \<and> map (\<lambda>c. map msg_url (sent c)) (clients (drain_period (run wide_web burst fresh)))
       = [[js ''http://seed'', js ''http://a'', js ''http://b'']]"
proof -
  let ?s = "run wide_web burst fresh"
  have i: "intervals ?s = 2" and q: "broadcastQueue ?s = [js ''http://a'', js ''http://b'', js ''http://c'']"
    and v: "map view (clients ?s) = [(OPEN, [js ''http://seed''])]"
    using burst_state by (simp_all del: js_Cons js_Nil)
  have p: "drain_period ?s = drain_tick (drain_tick ?s)"
    by (simp add: drain_period_def i numeral_2_eq_2)
  have q2: "broadcastQueue (drain_period ?s) = [js ''http://c'']"
    by (simp add: p drain_tick_queue q del: js_Cons js_Nil)
  have v2: "map view (clients (drain_period ?s)) = [(OPEN, [js ''http://seed'', js ''http://a'', js ''http://b''])]"
    by (simp add: p drain_tick_view drain_tick_queue q v receive_def del: js_Cons js_Nil)
  have u: "map (\<lambda>c. map msg_url (sent c)) cs = map snd (map view cs)" for cs
    by (simp add: view_def sent_urls_def comp_def)
  show ?thesis
    by (simp only: u v v2 i q q2) (simp del: js_Cons js_Nil)
qed

end
